theory Spec2Isabelle
  imports Main "HOL-Library.AList"
begin

section \<open>Python strings and integers\<close>

text \<open>
  Python's \<^verbatim>\<open>str(n)\<close> on an unbounded integer, as the f-strings
  \<^verbatim>\<open>f"_{add_id}{suffix}"\<close> and \<^verbatim>\<open>f"{prefix}{counter}_{semantic_id}"\<close> of
  \<^verbatim>\<open>helpers_storage.py\<close> use it: decimal digits, most significant first, a leading
  minus sign for a negative number.
\<close>

definition digit_char :: "nat \<Rightarrow> char" where
  "digit_char d = ''0123456789'' ! d"

fun str_nat :: "nat \<Rightarrow> string" where
  "str_nat n = (if n < 10 then [digit_char n] else str_nat (n div 10) @ [digit_char (n mod 10)])"

declare str_nat.simps [simp del]

definition str_int :: "int \<Rightarrow> string" where
  "str_int i = (if i < 0 then CHR ''-'' # str_nat (nat (- i)) else str_nat (nat i))"

subsection \<open>The decimal rendering is injective\<close>

lemma digit_char_inj: "a < 10 \<Longrightarrow> b < 10 \<Longrightarrow> digit_char a = digit_char b \<Longrightarrow> a = b"
  unfolding digit_char_def
  by (subst (asm) nth_eq_iff_index_eq) simp_all

lemma digit_char_mem: "d < 10 \<Longrightarrow> digit_char d \<in> set ''0123456789''"
  unfolding digit_char_def by (rule nth_mem) simp

lemma str_nat_nonempty: "str_nat n \<noteq> []"
  by (subst str_nat.simps) simp

lemma str_nat_digits: "set (str_nat n) \<subseteq> set ''0123456789''"
proof (induction n rule: str_nat.induct)
  case (1 n)
  show ?case
  proof (cases "n < 10")
    case True
    then show ?thesis
      using digit_char_mem [of n] by (subst str_nat.simps) simp
  next
    case False
    have "n mod 10 < 10" by simp
    from digit_char_mem [OF this] 1 [OF False] False show ?thesis
      by (subst str_nat.simps) simp
  qed
qed

lemma str_nat_inj: "str_nat n = str_nat m \<Longrightarrow> n = m"
proof (induction n arbitrary: m rule: str_nat.induct)
  case (1 n)
  show ?case
  proof (cases "n < 10")
    case n_small: True
    show ?thesis
    proof (cases "m < 10")
      case True
      with n_small 1(2) show ?thesis
        by (simp add: str_nat.simps [of n] str_nat.simps [of m] digit_char_inj)
    next
      case False
      with n_small 1(2) str_nat_nonempty [of "m div 10"] show ?thesis
        by (simp add: str_nat.simps [of n] str_nat.simps [of m] Cons_eq_append_conv)
    qed
  next
    case n_big: False
    show ?thesis
    proof (cases "m < 10")
      case True
      with n_big 1(2) str_nat_nonempty [of "n div 10"] show ?thesis
        by (simp add: str_nat.simps [of n] str_nat.simps [of m] append_eq_Cons_conv)
    next
      case m_big: False
      from n_big m_big 1(2) have e: "str_nat (n div 10) = str_nat (m div 10)"
        and d: "digit_char (n mod 10) = digit_char (m mod 10)"
        by (simp_all add: str_nat.simps [of n] str_nat.simps [of m])
      from 1(1) [OF n_big e] have "n div 10 = m div 10" .
      moreover from d have "n mod 10 = m mod 10" by (simp add: digit_char_inj)
      ultimately show ?thesis by (metis div_mult_mod_eq)
    qed
  qed
qed

lemma str_nat_no_minus: "hd (str_nat n) \<noteq> CHR ''-''"
proof -
  have "hd (str_nat n) \<in> set (str_nat n)"
    using str_nat_nonempty by simp
  with str_nat_digits [of n] show ?thesis by auto
qed

lemma str_int_inj: "str_int i = str_int j \<Longrightarrow> i = j"
proof -
  assume e: "str_int i = str_int j"
  consider "i < 0" "j < 0" | "i < 0" "\<not> j < 0" | "\<not> i < 0" "j < 0" | "\<not> i < 0" "\<not> j < 0"
    by blast
  then show ?thesis
  proof cases
    case 1
    with e have "nat (- i) = nat (- j)" by (simp add: str_int_def str_nat_inj)
    with 1 show ?thesis by simp
  next
    case 2
    with e have "CHR ''-'' # str_nat (nat (- i)) = str_nat (nat j)"
      by (simp add: str_int_def)
    then have "hd (str_nat (nat j)) = CHR ''-''"
      by (metis list.sel(1))
    with str_nat_no_minus show ?thesis by blast
  next
    case 3
    with e have "CHR ''-'' # str_nat (nat (- j)) = str_nat (nat i)"
      by (simp add: str_int_def)
    then have "hd (str_nat (nat i)) = CHR ''-''"
      by (metis list.sel(1))
    with str_nat_no_minus show ?thesis by blast
  next
    case 4
    with e have "nat i = nat j" by (simp add: str_int_def str_nat_inj)
    with 4 show ?thesis by simp
  qed
qed

section \<open>Paths and the file system\<close>

text \<open>
  A path is the string handed to the operating system. \<^verbatim>\<open>os.path.basename\<close>,
  \<^verbatim>\<open>os.path.dirname\<close> and \<^verbatim>\<open>os.path.join\<close> are the functions of
  \<^verbatim>\<open>posixpath\<close>. A \<^verbatim>\<open>pathlib.Path\<close> is represented by its string, which
  pathlib keeps free of a trailing slash (the root apart); \<open>pjoin\<close> is its
  \<^verbatim>\<open>/\<close> operator for one more name.
\<close>

type_synonym path = string

definition osp_basename :: "path \<Rightarrow> string" where
  "osp_basename p = rev (takeWhile (\<lambda>c. c \<noteq> CHR ''/'') (rev p))"

definition rstrip_slash :: "string \<Rightarrow> string" where
  "rstrip_slash s = rev (dropWhile (\<lambda>c. c = CHR ''/'') (rev s))"

definition osp_dirname :: "path \<Rightarrow> path" where
  "osp_dirname p =
     (let head = rev (dropWhile (\<lambda>c. c \<noteq> CHR ''/'') (rev p))
      in if head \<noteq> [] \<and> \<not> list_all (\<lambda>c. c = CHR ''/'') head then rstrip_slash head else head)"

definition osp_join :: "path \<Rightarrow> string \<Rightarrow> path" where
  "osp_join a b =
     (if b \<noteq> [] \<and> hd b = CHR ''/'' then b
      else if a = [] \<or> last a = CHR ''/'' then a @ b
      else a @ ''/'' @ b)"

definition pjoin :: "path \<Rightarrow> string \<Rightarrow> path" where
  "pjoin p name = (if p \<noteq> [] \<and> last p = CHR ''/'' then p @ name else p @ ''/'' @ name)"

text \<open>
  The strings a \<^verbatim>\<open>pathlib.Path\<close> can have (the empty path, which pathlib writes
  \<^verbatim>\<open>.\<close>, apart): no trailing slash, but for the root.
\<close>

definition is_normal :: "path \<Rightarrow> bool" where
  "is_normal p = (p \<noteq> [] \<and> (last p \<noteq> CHR ''/'' \<or> p = ''/''))"

text \<open>
  The objects a checkpoint stores are opaque to the store but for the optional hook
  \<^verbatim>\<open>prepare_for_save\<close>: \<open>Data\<close> is an object without the hook, \<open>Finalizable d r\<close> an
  object of a class such as \<^verbatim>\<open>TrainingLogs\<close>, whose hook sets the flag
  \<^verbatim>\<open>is_ready_for_save\<close> (here \<open>r\<close>).
\<close>

datatype pyobj = Data string | Finalizable string bool

datatype yval = YNone | YStr string | YInt int | YList "yval list" | YDict "(string \<times> yval) list"

record checkpoint_info =
  ci_name :: string
  ci_phase :: string
  ci_saved_at :: nat
  ci_files :: "(string \<times> string) list"

text \<open>
  What a file holds: a pickled object, a YAML document (a mapping), the JSON checkpoint
  index, or bytes the store knows nothing about.
\<close>

datatype content =
    Pickled pyobj
  | Yaml "(string \<times> yval) list"
  | Json "(string \<times> checkpoint_info) list"
  | Raw string

datatype node = Dir | File content

text \<open>
  The file system is a finite table from path strings to nodes; two strings are two
  paths (the model does not identify different spellings of one path).
\<close>

type_synonym fs = "(path \<times> node) list"

definition osp_exists :: "fs \<Rightarrow> path \<Rightarrow> bool" where
  "osp_exists fs p = (map_of fs p \<noteq> None)"

definition osp_isdir :: "fs \<Rightarrow> path \<Rightarrow> bool" where
  "osp_isdir fs p = (map_of fs p = Some Dir)"

text \<open>
  The Python exceptions the modelled code can raise. \<open>NotFound name available\<close> is the
  \<^verbatim>\<open>ValueError\<close> of \<^verbatim>\<open>load_checkpoint\<close> for a name that is not in the index.
\<close>

datatype error =
    FileNotFoundError
  | FileExistsError
  | NotADirectoryError
  | IsADirectoryError
  | SameFileError
  | NotFound string "string list"
  | KeyError string
  | TypeError
  | ValueError
  | AttributeError
  | IndexError
  | UnpicklingError

section \<open>The no-overwrite resolver\<close>

text \<open>
  \<^verbatim>\<open>get_no_overwrite_path\<close> of \<^verbatim>\<open>helpers_storage.py\<close>. Its only system call is
  \<^verbatim>\<open>os.path.exists\<close>; the file system is threaded through every call, so that what the
  function leaves behind is a result of the model and not of its type.
\<close>

definition stat_exists :: "path \<Rightarrow> fs \<Rightarrow> bool \<times> fs" where
  "stat_exists p fs = (osp_exists fs p, fs)"

text \<open>The probed name \<^verbatim>\<open>file_path_no_suffix + f"_{add_id}{suffix}"\<close>.\<close>

definition suffixed :: "string \<Rightarrow> string \<Rightarrow> int \<Rightarrow> path" where
  "suffixed base suffix add_id = base @ ''_'' @ str_int add_id @ suffix"

lemma suffixed_inj: "suffixed base suffix i = suffixed base suffix j \<Longrightarrow> i = j"
  by (simp add: suffixed_def str_int_inj)

text \<open>
  The loop \<^verbatim>\<open>while osp.exists(file_path): add_id += 1; file_path = ...\<close> ends because
  the table is finite and the probed names are pairwise different: the names above
  \<open>add_id\<close> that are taken become fewer with every round.
\<close>

definition taken_above :: "fs \<Rightarrow> string \<Rightarrow> string \<Rightarrow> int \<Rightarrow> path set" where
  "taken_above fs base suffix add_id =
     {p \<in> fst ` set fs. \<exists>j > add_id. p = suffixed base suffix j}"

lemma taken_above_less:
  assumes "osp_exists fs (suffixed base suffix (add_id + 1))"
  shows "card (taken_above fs base suffix (add_id + 1)) < card (taken_above fs base suffix add_id)"
proof (rule psubset_card_mono)
  show "finite (taken_above fs base suffix add_id)"
    by (simp add: taken_above_def)
  from assms have "suffixed base suffix (add_id + 1) \<in> fst ` set fs"
    by (auto simp: osp_exists_def dest: map_of_SomeD intro: rev_image_eqI)
  then have "suffixed base suffix (add_id + 1) \<in> taken_above fs base suffix add_id"
    unfolding taken_above_def by (auto intro: exI [of _ "add_id + 1"])
  moreover have "suffixed base suffix (add_id + 1) \<notin> taken_above fs base suffix (add_id + 1)"
    by (auto simp: taken_above_def dest: suffixed_inj)
  moreover have "taken_above fs base suffix (add_id + 1) \<subseteq> taken_above fs base suffix add_id"
  proof
    fix p
    assume "p \<in> taken_above fs base suffix (add_id + 1)"
    then obtain j where "p \<in> fst ` set fs" "add_id + 1 < j" "p = suffixed base suffix j"
      unfolding taken_above_def by blast
    moreover from this have "add_id < j" by simp
    ultimately show "p \<in> taken_above fs base suffix add_id"
      unfolding taken_above_def by blast
  qed
  ultimately show "taken_above fs base suffix (add_id + 1) \<subset> taken_above fs base suffix add_id"
    by blast
qed

function no_overwrite_probe :: "string \<Rightarrow> string \<Rightarrow> int \<Rightarrow> path \<Rightarrow> fs \<Rightarrow> path \<times> fs" where
  "no_overwrite_probe base suffix add_id file_path fs =
     (case stat_exists file_path fs of (taken, fs1) \<Rightarrow>
        if taken
        then no_overwrite_probe base suffix (add_id + 1) (suffixed base suffix (add_id + 1)) fs1
        else (file_path, fs1))"
  by pat_completeness auto
termination
  apply (relation "measure (\<lambda>(base, suffix, add_id, file_path, fs).
    if osp_exists fs file_path then Suc (card (taken_above fs base suffix add_id)) else 0)")
   apply simp
  apply (auto simp: stat_exists_def taken_above_less)
  done

declare no_overwrite_probe.simps [simp del]

definition get_no_overwrite_path ::
    "string \<Rightarrow> string \<Rightarrow> bool \<Rightarrow> bool \<Rightarrow> fs \<Rightarrow> (path \<times> path) \<times> fs" where
  "get_no_overwrite_path file_path_no_suffix suffix make_folders_on_path warn_if_already_exists fs =
     (let file_path = file_path_no_suffix @ suffix;
          old_file_path = file_path
      in case stat_exists file_path fs of (taken, fs1) \<Rightarrow>
           if taken
           then (case no_overwrite_probe file_path_no_suffix suffix 1
                        (suffixed file_path_no_suffix suffix 1) fs1 of
                   (file_path, fs2) \<Rightarrow> ((file_path, old_file_path), fs2))
           else ((file_path, old_file_path), fs1))"

section \<open>Creating directories and files\<close>

text \<open>
  The system calls the helpers make, as far as the table of paths is concerned.
  \<^verbatim>\<open>os.mkdir\<close> wants a new name in an existing directory. \<^verbatim>\<open>os.makedirs(p, exist_ok=True)\<close>
  is modelled by its contract: nothing to do when \<open>p\<close> is a directory, an error when
  \<open>p\<close> is a file, and otherwise the missing ancestors are made first. Opening a file
  for writing creates or truncates it; \<^verbatim>\<open>shutil.copy2\<close> reads the source and writes the
  target (the metadata it preserves is not part of the model).
\<close>

lemma rev_dropWhile_takeWhile:
  "rev (dropWhile P (rev xs)) @ rev (takeWhile P (rev xs)) = xs"
  by (metis rev_append rev_rev_ident takeWhile_dropWhile_id)

lemma osp_dirname_prefix: "\<exists>rest. p = osp_dirname p @ rest"
proof -
  let ?head = "rev (dropWhile (\<lambda>c. c \<noteq> CHR ''/'') (rev p))"
  have a: "p = ?head @ rev (takeWhile (\<lambda>c. c \<noteq> CHR ''/'') (rev p))"
    by (rule rev_dropWhile_takeWhile [symmetric])
  have b: "?head = rstrip_slash ?head @ rev (takeWhile (\<lambda>c. c = CHR ''/'') (rev ?head))"
    unfolding rstrip_slash_def by (rule rev_dropWhile_takeWhile [symmetric])
  show ?thesis
  proof (cases "?head \<noteq> [] \<and> \<not> list_all (\<lambda>c. c = CHR ''/'') ?head")
    case True
    then have "osp_dirname p = rstrip_slash ?head"
      by (simp add: osp_dirname_def Let_def)
    with a b show ?thesis by (metis append.assoc)
  next
    case False
    then have "osp_dirname p = ?head"
      by (auto simp: osp_dirname_def Let_def)
    with a show ?thesis by metis
  qed
qed

lemma osp_dirname_shorter: "osp_dirname p \<noteq> p \<Longrightarrow> length (osp_dirname p) < length p"
proof -
  assume ne: "osp_dirname p \<noteq> p"
  from osp_dirname_prefix [of p] obtain rest where r: "p = osp_dirname p @ rest" ..
  with ne have "rest \<noteq> []" by auto
  with r show ?thesis by (metis length_append length_greater_0_conv less_add_same_cancel1)
qed

definition fs_mkdir :: "path \<Rightarrow> fs \<Rightarrow> error + fs" where
  "fs_mkdir p fs =
     (if p = [] then Inl FileNotFoundError
      else if osp_exists fs p then Inl FileExistsError
      else let d = osp_dirname p in
        if d = [] \<or> d = p \<or> osp_isdir fs d then Inr (fs @ [(p, Dir)])
        else if osp_exists fs d then Inl NotADirectoryError
        else Inl FileNotFoundError)"

function makedirs :: "path \<Rightarrow> fs \<Rightarrow> error + fs" where
  "makedirs p fs =
     (if osp_isdir fs p then Inr fs
      else if osp_exists fs p then Inl FileExistsError
      else if osp_dirname p = [] \<or> osp_dirname p = p \<or> osp_exists fs (osp_dirname p)
        then fs_mkdir p fs
      else (case makedirs (osp_dirname p) fs of
              Inl e \<Rightarrow> Inl e
            | Inr fs1 \<Rightarrow> fs_mkdir p fs1))"
  by pat_completeness auto
termination
  by (relation "measure (\<lambda>(p, fs). length p)") (auto simp: osp_dirname_shorter)

declare makedirs.simps [simp del]

definition fs_write :: "path \<Rightarrow> content \<Rightarrow> fs \<Rightarrow> error + fs" where
  "fs_write p c fs =
     (if p = [] then Inl FileNotFoundError
      else if osp_isdir fs p \<or> osp_dirname p = p then Inl IsADirectoryError
      else let d = osp_dirname p in
        if d = [] \<or> osp_isdir fs d then Inr (AList.update p (File c) fs)
        else if osp_exists fs d then Inl NotADirectoryError
        else Inl FileNotFoundError)"

definition fs_read :: "path \<Rightarrow> fs \<Rightarrow> error + content" where
  "fs_read p fs =
     (case map_of fs p of
        None \<Rightarrow> Inl FileNotFoundError
      | Some Dir \<Rightarrow> Inl IsADirectoryError
      | Some (File c) \<Rightarrow> Inr c)"

definition sh_copy2 :: "path \<Rightarrow> path \<Rightarrow> fs \<Rightarrow> error + fs" where
  "sh_copy2 src dst fs =
     (let dst = (if osp_isdir fs dst then osp_join dst (osp_basename src) else dst)
      in if src = dst then Inl SameFileError
         else (case fs_read src fs of
                 Inl e \<Rightarrow> Inl e
               | Inr c \<Rightarrow> fs_write dst c fs))"

section \<open>The sequential-counter allocator\<close>

text \<open>
  \<^verbatim>\<open>novel_start_of_folder\<close> of \<^verbatim>\<open>helpers_storage.py\<close>. The loop has no bound of its
  own, so it is a partial function: \<open>None\<close> is the loop that never ends. The loop state
  is \<^verbatim>\<open>prefix\<close>, \<^verbatim>\<open>counter\<close> and \<^verbatim>\<open>folder_path\<close>; the path is computed from the counter
  before the overflow test resets it, as in the source.
\<close>

partial_function (option) novel_start_loop ::
    "fs \<Rightarrow> path \<Rightarrow> string \<Rightarrow> string \<Rightarrow> int \<Rightarrow> path \<Rightarrow> path option" where
  "novel_start_loop fs parent semantic_id prefix counter folder_path =
     (if osp_exists fs folder_path
      then (if counter - 1 \<le> 100
            then novel_start_loop fs parent semantic_id (prefix @ ''#'') 999
                   (pjoin parent (prefix @ str_int (counter - 1) @ ''_'' @ semantic_id))
            else novel_start_loop fs parent semantic_id prefix (counter - 1)
                   (pjoin parent (prefix @ str_int (counter - 1) @ ''_'' @ semantic_id)))
      else Some folder_path)"

declare novel_start_loop.simps [code]

definition novel_start_of_folder :: "path \<Rightarrow> string \<Rightarrow> fs \<Rightarrow> ((error + path) \<times> fs) option" where
  "novel_start_of_folder path_to_parent_folder semantic_id fs =
     (case novel_start_loop fs path_to_parent_folder semantic_id [] 999
             (pjoin path_to_parent_folder ([] @ str_int 999 @ ''_'' @ semantic_id)) of
        None \<Rightarrow> None
      | Some folder_path \<Rightarrow>
          Some (case makedirs folder_path fs of
                  Inl e \<Rightarrow> (Inl e, fs)
                | Inr fs1 \<Rightarrow> (Inr folder_path, fs1)))"

text \<open>
  A sequence of \<open>n\<close> calls with the same parent and label, each on the file system the
  previous one left; an exception ends the sequence.
\<close>

fun novel_start_of_folder_times ::
    "nat \<Rightarrow> path \<Rightarrow> string \<Rightarrow> fs \<Rightarrow> ((error + path list) \<times> fs) option" where
  "novel_start_of_folder_times 0 parent semantic_id fs = Some (Inr [], fs)"
| "novel_start_of_folder_times (Suc n) parent semantic_id fs =
     (case novel_start_of_folder parent semantic_id fs of
        None \<Rightarrow> None
      | Some (Inl e, fs1) \<Rightarrow> Some (Inl e, fs1)
      | Some (Inr p, fs1) \<Rightarrow>
          (case novel_start_of_folder_times n parent semantic_id fs1 of
             None \<Rightarrow> None
           | Some (Inl e, fs2) \<Rightarrow> Some (Inl e, fs2)
           | Some (Inr ps, fs2) \<Rightarrow> Some (Inr (p # ps), fs2)))"

section \<open>The random-alphanumeric allocator\<close>

text \<open>
  \<^verbatim>\<open>_to_base62\<close> and \<^verbatim>\<open>novel_folder_anum\<close>. The draw of \<^verbatim>\<open>random.randrange(max_num)\<close> is
  the argument \<open>rand\<close>, an integer with \<open>0 \<le> rand < max_num\<close>. The loop
  \<^verbatim>\<open>while True\<close> is a partial function: \<open>None\<close> is the loop that never ends.
\<close>

definition ALPHANUM_CHARS :: string where
  "ALPHANUM_CHARS = ''0123456789ABCDEFGHIJKLMNOPQRSTUVWXYZabcdefghijklmnopqrstuvwxyz''"

fun to_base62_loop :: "nat \<Rightarrow> int \<Rightarrow> string \<Rightarrow> string" where
  "to_base62_loop 0 num chars = chars"
| "to_base62_loop (Suc k) num chars =
     to_base62_loop k (num div int (length ALPHANUM_CHARS))
       (chars @ [ALPHANUM_CHARS ! nat (num mod int (length ALPHANUM_CHARS))])"

definition to_base62 :: "int \<Rightarrow> nat \<Rightarrow> string" where
  "to_base62 num len = rev (to_base62_loop len num [])"

partial_function (option) novel_folder_anum_loop ::
    "fs \<Rightarrow> path \<Rightarrow> nat \<Rightarrow> int \<Rightarrow> int \<Rightarrow> ((error + path) \<times> fs) option" where
  "novel_folder_anum_loop fs ptpf digit_num max_num n =
     (if \<not> osp_exists fs (pjoin ptpf (to_base62 n digit_num))
      then Some (case makedirs (pjoin ptpf (to_base62 n digit_num)) fs of
                   Inl e \<Rightarrow> (Inl e, fs)
                 | Inr fs1 \<Rightarrow> (Inr (pjoin ptpf (to_base62 n digit_num)), fs1))
      else novel_folder_anum_loop fs ptpf digit_num max_num ((n + 1) mod max_num))"

declare novel_folder_anum_loop.simps [code]

definition novel_folder_anum ::
    "path \<Rightarrow> nat \<Rightarrow> int \<Rightarrow> fs \<Rightarrow> ((error + path) \<times> fs) option" where
  "novel_folder_anum path_to_parent_folder digit_num rand fs =
     (let max_num = int (length ALPHANUM_CHARS) ^ digit_num;
          n = rand
      in novel_folder_anum_loop fs path_to_parent_folder digit_num max_num n)"

section \<open>Non-duplicate backups\<close>

text \<open>
  \<^verbatim>\<open>make_non_duplicate_backups\<close>. The entries of the returned list are Python's
  \<^verbatim>\<open>True\<close> (copied), \<^verbatim>\<open>False\<close> (a file of that name was in the backup folder) and
  \<^verbatim>\<open>None\<close> (the source does not exist): \<open>Some True\<close>, \<open>Some False\<close> and \<open>None\<close>. An
  exception of \<^verbatim>\<open>os.makedirs\<close> or \<^verbatim>\<open>shutil.copy2\<close> ends the call with the file system as
  it is then.
\<close>

fun backups_loop ::
    "path list \<Rightarrow> path \<Rightarrow> bool option list \<Rightarrow> fs \<Rightarrow> (error + bool option list) \<times> fs" where
  "backups_loop [] path_to_backup_folder did_backup fs = (Inr did_backup, fs)"
| "backups_loop (path # rest) path_to_backup_folder did_backup fs =
     (if \<not> osp_exists fs path
      then backups_loop rest path_to_backup_folder (did_backup @ [None]) fs
      else if osp_exists fs (osp_join path_to_backup_folder (osp_basename path))
      then backups_loop rest path_to_backup_folder (did_backup @ [Some False]) fs
      else (case makedirs (osp_dirname (osp_join path_to_backup_folder (osp_basename path))) fs of
              Inl e \<Rightarrow> (Inl e, fs)
            | Inr fs1 \<Rightarrow>
                (case sh_copy2 path (osp_join path_to_backup_folder (osp_basename path)) fs1 of
                   Inl e \<Rightarrow> (Inl e, fs1)
                 | Inr fs2 \<Rightarrow>
                     backups_loop rest path_to_backup_folder (did_backup @ [Some True]) fs2)))"

definition make_non_duplicate_backups ::
    "path list \<Rightarrow> path \<Rightarrow> fs \<Rightarrow> (error + bool option list) \<times> fs" where
  "make_non_duplicate_backups paths_of_files_to_back_up path_to_backup_folder fs =
     backups_loop paths_of_files_to_back_up path_to_backup_folder [] fs"

section \<open>The checkpoint store\<close>

text \<open>
  The class \<^verbatim>\<open>MLStorage\<close> of \<^verbatim>\<open>shared_storage3.py\<close>. Its six path attributes are
  assigned in two places only: \<^verbatim>\<open>None\<close> in \<^verbatim>\<open>__init__\<close>, and in \<^verbatim>\<open>initial_setup\<close> the
  project path with one fixed name appended. The record keeps \<open>project_path\<close>, and the
  other five are functions of it.
\<close>

datatype project_phase = SETUP | TRAINING | EVALUATION | READY

fun phase_value :: "project_phase \<Rightarrow> string" where
  "phase_value SETUP = ''setup''"
| "phase_value TRAINING = ''training''"
| "phase_value EVALUATION = ''evaluation''"
| "phase_value READY = ''ready''"

record ml_storage =
  project_path :: "path option"
  main_config :: "(string \<times> yval) list"
  shared_storage :: "(string \<times> yval) list"
  file_tree :: "(string \<times> yval) list"
  checkpoint_db :: "(string \<times> checkpoint_info) list"
  current_phase :: project_phase

definition main_yaml_path :: "path \<Rightarrow> path" where
  "main_yaml_path p = pjoin p ''main.yaml''"

definition shared_storage_path :: "path \<Rightarrow> path" where
  "shared_storage_path p = pjoin p ''shared_storage.yaml''"

definition file_tree_path :: "path \<Rightarrow> path" where
  "file_tree_path p = pjoin p ''file_tree.yaml''"

definition tiny_db_path :: "path \<Rightarrow> path" where
  "tiny_db_path p = pjoin p ''tiny_db.json''"

definition files_dir :: "path \<Rightarrow> path" where
  "files_dir p = pjoin p ''files''"

text \<open>
  What the store acts on, beside itself: the file system and the clock
  (\<^verbatim>\<open>datetime.now()\<close>; a time stamp is a number, and reading the clock advances it).
  Two more fields record what happened, for the claims about order and about what is
  not done: \<open>journal\<close> lists every file written, in order (an object file with the role it
  was written for), and \<open>hook_calls\<close> lists the roles whose object had its
  \<^verbatim>\<open>prepare_for_save\<close> invoked.
\<close>

datatype write_event = Object_written string path | Document_written path

record world =
  disk :: fs
  clock :: nat
  journal :: "write_event list"
  hook_calls :: "string list"

definition now :: "world \<Rightarrow> nat \<times> world" where
  "now w = (clock w, w\<lparr>clock := clock w + 1\<rparr>)"

subsection \<open>pathlib and pickle\<close>

fun split_on :: "char \<Rightarrow> string \<Rightarrow> string list" where
  "split_on c [] = [[]]"
| "split_on c (x # xs) =
     (if x = c then [] # split_on c xs
      else (case split_on c xs of
              [] \<Rightarrow> [[x]]
            | y # ys \<Rightarrow> (x # y) # ys))"

text \<open>\<^verbatim>\<open>Path(s).parts\<close> for a relative path.\<close>

definition path_parts :: "path \<Rightarrow> string list" where
  "path_parts p = filter (\<lambda>s. s \<noteq> [] \<and> s \<noteq> ''.'') (split_on CHR ''/'' p)"

text \<open>\<^verbatim>\<open>Path(s).parent\<close>, as a string.\<close>

definition path_parent :: "path \<Rightarrow> path" where
  "path_parent p = (if osp_dirname p = [] then ''.'' else osp_dirname p)"

text \<open>
  \<^verbatim>\<open>PurePath.suffix\<close> of a file name: from the last dot on, unless that dot is the first
  or the last character; and \<^verbatim>\<open>with_suffix('')\<close>, which removes it.
\<close>

definition path_suffix :: "string \<Rightarrow> string" where
  "path_suffix name =
     (let ext = rev (takeWhile (\<lambda>c. c \<noteq> CHR ''.'') (rev name))
      in if CHR ''.'' \<in> set name \<and> ext \<noteq> [] \<and> length ext + 1 < length name
         then CHR ''.'' # ext else [])"

definition with_suffix_empty :: "path \<Rightarrow> error + path" where
  "with_suffix_empty p =
     (if osp_basename p = [] then Inl ValueError
      else Inr (take (length p - length (path_suffix (osp_basename p))) p))"

text \<open>\<^verbatim>\<open>Path(p).relative_to(parent)\<close>.\<close>

definition relative_to :: "path \<Rightarrow> path \<Rightarrow> error + path" where
  "relative_to p parent =
     (let stem = (if parent \<noteq> [] \<and> last parent = CHR ''/'' then parent else parent @ ''/'')
      in if p = parent then Inr ''.''
         else if take (length stem) p = stem then Inr (drop (length stem) p)
         else Inl ValueError)"

definition has_prepare_for_save :: "pyobj \<Rightarrow> bool" where
  "has_prepare_for_save obj = (case obj of Data d \<Rightarrow> False | Finalizable d r \<Rightarrow> True)"

definition prepare_for_save :: "pyobj \<Rightarrow> pyobj" where
  "prepare_for_save obj = (case obj of Data d \<Rightarrow> Data d | Finalizable d r \<Rightarrow> Finalizable d True)"

text \<open>
  The number of bytes of a file is not part of the model; \<open>content_size\<close> stands for
  \<^verbatim>\<open>os.path.getsize\<close> in the one attribute the file tree records.
\<close>

fun content_size :: "node \<Rightarrow> nat" where
  "content_size Dir = 0"
| "content_size (File (Pickled (Data d))) = length d"
| "content_size (File (Pickled (Finalizable d r))) = length d + 1"
| "content_size (File (Yaml d)) = length d"
| "content_size (File (Json d)) = length d"
| "content_size (File (Raw d)) = length d"

subsection \<open>The document writers\<close>

text \<open>
  \<^verbatim>\<open>write_yaml\<close> of \<^verbatim>\<open>yaml_handler.py\<close> and \<^verbatim>\<open>write_json\<close> of \<^verbatim>\<open>json_handler.py\<close>: the
  optional probing for a free name, \<^verbatim>\<open>os.makedirs\<close> of the parent, and the write.
\<close>

definition write_document ::
    "content \<Rightarrow> path \<Rightarrow> string \<Rightarrow> bool \<Rightarrow> world \<Rightarrow> error option \<times> world" where
  "write_document doc file_path_no_suffix suffix no_overwrite w =
     (let file_path =
            (if no_overwrite \<and> osp_exists (disk w) (file_path_no_suffix @ suffix)
             then fst (no_overwrite_probe file_path_no_suffix suffix 1
                         (suffixed file_path_no_suffix suffix 1) (disk w))
             else file_path_no_suffix @ suffix)
      in case makedirs (path_parent file_path) (disk w) of
           Inl e \<Rightarrow> (Some e, w)
         | Inr fs1 \<Rightarrow>
             (case fs_write file_path doc fs1 of
                Inl e \<Rightarrow> (Some e, w\<lparr>disk := fs1\<rparr>)
              | Inr fs2 \<Rightarrow>
                  (None, w\<lparr>disk := fs2, journal := journal w @ [Document_written file_path]\<rparr>)))"

definition write_yaml ::
    "(string \<times> yval) list \<Rightarrow> path \<Rightarrow> string \<Rightarrow> bool \<Rightarrow> world \<Rightarrow> error option \<times> world" where
  "write_yaml yaml_dict file_path_no_suffix suffix no_overwrite w =
     write_document (Yaml yaml_dict) file_path_no_suffix suffix no_overwrite w"

definition write_json ::
    "(string \<times> checkpoint_info) list \<Rightarrow> path \<Rightarrow> string \<Rightarrow> bool \<Rightarrow> world
      \<Rightarrow> error option \<times> world" where
  "write_json json_dict file_path_no_suffix suffix no_overwrite w =
     write_document (Json json_dict) file_path_no_suffix suffix no_overwrite w"

subsection \<open>Saving the state\<close>

text \<open>
  \<^verbatim>\<open>_save_all_state\<close>: nothing without a project path; otherwise the four documents,
  in the order of the source. An exception ends the sequence.
\<close>

definition save_all_state :: "ml_storage \<Rightarrow> world \<Rightarrow> error option \<times> world" where
  "save_all_state st w =
     (case project_path st of
        None \<Rightarrow> (None, w)
      | Some p \<Rightarrow>
          (case write_yaml (main_config st) (main_yaml_path p) [] False w of
             (Some e, w1) \<Rightarrow> (Some e, w1)
           | (None, w1) \<Rightarrow>
          (case write_yaml (shared_storage st) (shared_storage_path p) [] False w1 of
             (Some e, w2) \<Rightarrow> (Some e, w2)
           | (None, w2) \<Rightarrow>
          (case write_yaml (file_tree st) (file_tree_path p) [] False w2 of
             (Some e, w3) \<Rightarrow> (Some e, w3)
           | (None, w3) \<Rightarrow>
          write_json (checkpoint_db st) (tiny_db_path p) [] False w3))))"

subsection \<open>The file tree\<close>

text \<open>
  \<^verbatim>\<open>_update_file_tree\<close>. \<open>tree_walk\<close> is the chain of \<^verbatim>\<open>setdefault\<close> calls along the
  folder keys (a value that is no mapping fails at the next \<^verbatim>\<open>setdefault\<close>);
  \<open>tree_store\<close> is the assignment \<^verbatim>\<open>current[parts[-1]] = ...\<close> at the end of that chain
  (a last value that is no mapping fails there).
\<close>

fun tree_walk :: "string list \<Rightarrow> (string \<times> yval) list \<Rightarrow> error + (string \<times> yval) list" where
  "tree_walk [] d = Inr d"
| "tree_walk (k # ks) d =
     (case map_of d k of
        None \<Rightarrow>
          (case tree_walk ks [] of
             Inl e \<Rightarrow> Inl e
           | Inr sub \<Rightarrow> Inr (AList.update k (YDict sub) d))
      | Some (YDict sub) \<Rightarrow>
          (case tree_walk ks sub of
             Inl e \<Rightarrow> Inl e
           | Inr sub1 \<Rightarrow> Inr (AList.update k (YDict sub1) d))
      | Some _ \<Rightarrow> (if ks = [] then Inr d else Inl AttributeError))"

fun tree_store ::
    "string list \<Rightarrow> string \<Rightarrow> yval \<Rightarrow> (string \<times> yval) list \<Rightarrow> error + (string \<times> yval) list" where
  "tree_store [] name leaf d = Inr (AList.update name leaf d)"
| "tree_store (k # ks) name leaf d =
     (case map_of d k of
        Some (YDict sub) \<Rightarrow>
          (case tree_store ks name leaf sub of
             Inl e \<Rightarrow> Inl e
           | Inr sub1 \<Rightarrow> Inr (AList.update k (YDict sub1) d))
      | Some _ \<Rightarrow> Inl TypeError
      | None \<Rightarrow> Inl (KeyError k))"

definition update_file_tree ::
    "path \<Rightarrow> ml_storage \<Rightarrow> world \<Rightarrow> error option \<times> ml_storage \<times> world" where
  "update_file_tree relative_path st w =
     (let parts = path_parts relative_path;
          keys = ''root'' # map (\<lambda>part. part @ ''/'') (butlast parts)
      in case tree_walk keys (file_tree st) of
           Inl e \<Rightarrow> (Some e, st, w)
         | Inr tree1 \<Rightarrow>
             (case now w of (added_at, w1) \<Rightarrow>
                (case project_path st of
                   None \<Rightarrow> (Some TypeError, st\<lparr>file_tree := tree1\<rparr>, w1)
                 | Some p \<Rightarrow>
                     (case map_of (disk w1) (pjoin p relative_path) of
                        None \<Rightarrow> (Some FileNotFoundError, st\<lparr>file_tree := tree1\<rparr>, w1)
                      | Some node \<Rightarrow>
                          (if parts = [] then (Some IndexError, st\<lparr>file_tree := tree1\<rparr>, w1)
                           else (case tree_store keys (last parts)
                                        (YDict [(''added_at'', YInt (int added_at)),
                                                (''size_bytes'', YInt (int (content_size node)))])
                                        tree1 of
                                   Inl e \<Rightarrow> (Some e, st\<lparr>file_tree := tree1\<rparr>, w1)
                                 | Inr tree2 \<Rightarrow> (None, st\<lparr>file_tree := tree2\<rparr>, w1)))))))"

subsection \<open>Saving a checkpoint\<close>

text \<open>
  One round of the loop of \<^verbatim>\<open>save_checkpoint\<close>, for an object that is not \<^verbatim>\<open>None\<close>:
  the hook, the file name, the no-overwrite resolver, the pickle, the file tree, and the
  entry \<^verbatim>\<open>checkpoint_info['files'][obj_name]\<close>. \<open>files\<close> is that mapping as built so far.
\<close>

definition save_object ::
    "string \<Rightarrow> string \<Rightarrow> pyobj \<Rightarrow> (string \<times> string) list \<Rightarrow> ml_storage \<Rightarrow> world
      \<Rightarrow> error option \<times> (string \<times> string) list \<times> ml_storage \<times> world" where
  "save_object name obj_name obj files st w =
     (let (obj1, w1) =
            (if has_prepare_for_save obj
             then (prepare_for_save obj, w\<lparr>hook_calls := hook_calls w @ [obj_name]\<rparr>)
             else (obj, w))
      in case project_path st of
           None \<Rightarrow> (Some TypeError, files, st, w1)
         | Some p \<Rightarrow>
             (case with_suffix_empty (pjoin (files_dir p) (name @ ''_'' @ obj_name @ ''.pkl'')) of
                Inl e \<Rightarrow> (Some e, files, st, w1)
              | Inr base \<Rightarrow>
                  (case get_no_overwrite_path base ''.pkl'' True False (disk w1) of
                     ((final_path, was_renamed), fs2) \<Rightarrow>
                       (case fs_write final_path (Pickled obj1) fs2 of
                          Inl e \<Rightarrow> (Some e, files, st, w1\<lparr>disk := fs2\<rparr>)
                        | Inr fs3 \<Rightarrow>
                            (case relative_to final_path p of
                               Inl e \<Rightarrow>
                                 (Some e, files, st,
                                  w1\<lparr>disk := fs3,
                                      journal := journal w1 @ [Object_written obj_name final_path]\<rparr>)
                             | Inr relative_path \<Rightarrow>
                                 (case update_file_tree relative_path st
                                         (w1\<lparr>disk := fs3,
                                             journal := journal w1
                                               @ [Object_written obj_name final_path]\<rparr>) of
                                    (Some e, st4, w4) \<Rightarrow> (Some e, files, st4, w4)
                                  | (None, st4, w4) \<Rightarrow>
                                      (None, AList.update obj_name (osp_basename final_path) files,
                                       st4, w4)))))))"

fun save_objects ::
    "string \<Rightarrow> (string \<times> pyobj option) list \<Rightarrow> (string \<times> string) list \<Rightarrow> ml_storage \<Rightarrow> world
      \<Rightarrow> error option \<times> (string \<times> string) list \<times> ml_storage \<times> world" where
  "save_objects name [] files st w = (None, files, st, w)"
| "save_objects name ((obj_name, None) # rest) files st w = save_objects name rest files st w"
| "save_objects name ((obj_name, Some obj) # rest) files st w =
     (case save_object name obj_name obj files st w of
        (Some e, files1, st1, w1) \<Rightarrow> (Some e, files1, st1, w1)
      | (None, files1, st1, w1) \<Rightarrow> save_objects name rest files1 st1 w1)"

text \<open>
  \<^verbatim>\<open>self.shared_storage['total_checkpoints'] += 1\<close>: a missing key is a \<^verbatim>\<open>KeyError\<close>, a
  value that is not a number a \<^verbatim>\<open>TypeError\<close>.
\<close>

definition bump_total_checkpoints :: "(string \<times> yval) list \<Rightarrow> error + (string \<times> yval) list" where
  "bump_total_checkpoints shared =
     (case map_of shared ''total_checkpoints'' of
        None \<Rightarrow> Inl (KeyError ''total_checkpoints'')
      | Some (YInt n) \<Rightarrow> Inr (AList.update ''total_checkpoints'' (YInt (n + 1)) shared)
      | Some _ \<Rightarrow> Inl TypeError)"

text \<open>
  \<^verbatim>\<open>save_checkpoint(name, **objects_to_save)\<close>. The keyword arguments are an ordered
  mapping from role names to objects, \<open>None\<close> for Python's \<^verbatim>\<open>None\<close>. An exception leaves
  the store and the world as they are at that moment.
\<close>

definition save_checkpoint ::
    "string \<Rightarrow> (string \<times> pyobj option) list \<Rightarrow> ml_storage \<Rightarrow> world
      \<Rightarrow> error option \<times> ml_storage \<times> world" where
  "save_checkpoint name objects_to_save st w =
     (case now w of (saved_at, w0) \<Rightarrow>
      (case save_objects name objects_to_save [] st w0 of
         (Some e, files, st1, w1) \<Rightarrow> (Some e, st1, w1)
       | (None, files, st1, w1) \<Rightarrow>
           (let checkpoint_info =
                  \<lparr>ci_name = name, ci_phase = phase_value (current_phase st),
                   ci_saved_at = saved_at, ci_files = files\<rparr>;
                st2 = st1\<lparr>checkpoint_db := AList.update name checkpoint_info (checkpoint_db st1)\<rparr>;
                st3 = st2\<lparr>shared_storage :=
                        AList.update ''latest_checkpoint'' (YStr name) (shared_storage st2)\<rparr>
            in case bump_total_checkpoints (shared_storage st3) of
                 Inl e \<Rightarrow> (Some e, st3, w1)
               | Inr shared4 \<Rightarrow>
                   (case map_of objects_to_save ''model'' of
                      None \<Rightarrow>
                        (case save_all_state (st3\<lparr>shared_storage := shared4\<rparr>) w1 of
                           (err, w2) \<Rightarrow> (err, st3\<lparr>shared_storage := shared4\<rparr>, w2))
                    | Some model \<Rightarrow>
                        (case map_of files ''model'' of
                           None \<Rightarrow> (Some (KeyError ''model''), st3\<lparr>shared_storage := shared4\<rparr>, w1)
                         | Some model_file \<Rightarrow>
                             (case save_all_state
                                     (st3\<lparr>shared_storage :=
                                          AList.update ''latest_model_file'' (YStr model_file)
                                            shared4\<rparr>) w1 of
                                (err, w2) \<Rightarrow>
                                  (err,
                                   st3\<lparr>shared_storage :=
                                        AList.update ''latest_model_file'' (YStr model_file)
                                          shared4\<rparr>,
                                   w2)))))))"

subsection \<open>Loading a checkpoint\<close>

text \<open>
  \<^verbatim>\<open>load_checkpoint(name)\<close>. The result is the dictionary \<^verbatim>\<open>loaded\<close>: the entry
  \<^verbatim>\<open>'checkpoint_info'\<close> and one entry per role whose file was read. A file that is not
  there is skipped (\<^verbatim>\<open>continue\<close>). The store and the world are handed back as the call
  leaves them.
\<close>

datatype loaded_value = Info checkpoint_info | Obj pyobj

fun load_files ::
    "(string \<times> string) list \<Rightarrow> (string \<times> loaded_value) list \<Rightarrow> ml_storage \<Rightarrow> world
      \<Rightarrow> (error + (string \<times> loaded_value) list) \<times> ml_storage \<times> world" where
  "load_files [] loaded st w = (Inr loaded, st, w)"
| "load_files ((obj_name, filename) # rest) loaded st w =
     (case project_path st of
        None \<Rightarrow> (Inl TypeError, st, w)
      | Some p \<Rightarrow>
          (if \<not> osp_exists (disk w) (pjoin (files_dir p) filename)
           then load_files rest loaded st w
           else (case fs_read (pjoin (files_dir p) filename) (disk w) of
                   Inl e \<Rightarrow> (Inl e, st, w)
                 | Inr (Pickled obj) \<Rightarrow>
                     load_files rest (AList.update obj_name (Obj obj) loaded) st w
                 | Inr _ \<Rightarrow> (Inl UnpicklingError, st, w))))"

definition load_checkpoint ::
    "string \<Rightarrow> ml_storage \<Rightarrow> world
      \<Rightarrow> (error + (string \<times> loaded_value) list) \<times> ml_storage \<times> world" where
  "load_checkpoint name st w =
     (case map_of (checkpoint_db st) name of
        None \<Rightarrow> (Inl (NotFound name (map fst (checkpoint_db st))), st, w)
      | Some checkpoint_info \<Rightarrow>
          load_files (ci_files checkpoint_info) [(''checkpoint_info'', Info checkpoint_info)] st w)"

section \<open>Properties of the no-overwrite resolver\<close>

lemma no_overwrite_probe_unfold:
  "no_overwrite_probe base suffix add_id file_path fs =
     (if osp_exists fs file_path
      then no_overwrite_probe base suffix (add_id + 1) (suffixed base suffix (add_id + 1)) fs
      else (file_path, fs))"
  by (subst no_overwrite_probe.simps) (simp add: stat_exists_def)

lemma no_overwrite_probe_fs: "snd (no_overwrite_probe base suffix add_id file_path fs) = fs"
proof (induction base suffix add_id file_path fs rule: no_overwrite_probe.induct)
  case (1 base suffix add_id file_path fs)
  show ?case
  proof (cases "osp_exists fs file_path")
    case True
    with 1 [of True fs] show ?thesis
      by (subst no_overwrite_probe_unfold) (simp add: stat_exists_def)
  next
    case False
    then show ?thesis
      by (subst no_overwrite_probe_unfold) simp
  qed
qed

lemma no_overwrite_probe_free:
  "\<not> osp_exists fs (fst (no_overwrite_probe base suffix add_id file_path fs))"
proof (induction base suffix add_id file_path fs rule: no_overwrite_probe.induct)
  case (1 base suffix add_id file_path fs)
  show ?case
  proof (cases "osp_exists fs file_path")
    case True
    with 1 [of True fs] show ?thesis
      by (subst no_overwrite_probe_unfold) (simp add: stat_exists_def)
  next
    case False
    then show ?thesis
      by (subst no_overwrite_probe_unfold) simp
  qed
qed

lemma no_overwrite_probe_form:
  "fst (no_overwrite_probe base suffix add_id file_path fs) = file_path \<or>
   (\<exists>k > add_id. fst (no_overwrite_probe base suffix add_id file_path fs) = suffixed base suffix k)"
proof (induction base suffix add_id file_path fs rule: no_overwrite_probe.induct)
  case (1 base suffix add_id file_path fs)
  show ?case
  proof (cases "osp_exists fs file_path")
    case True
    let ?next = "no_overwrite_probe base suffix (add_id + 1) (suffixed base suffix (add_id + 1)) fs"
    from True have eq: "no_overwrite_probe base suffix add_id file_path fs = ?next"
      by (subst no_overwrite_probe_unfold) simp
    from 1 [of True fs] True
    have "fst ?next = suffixed base suffix (add_id + 1) \<or>
      (\<exists>k > add_id + 1. fst ?next = suffixed base suffix k)"
      by (simp add: stat_exists_def)
    then have "\<exists>k > add_id. fst ?next = suffixed base suffix k"
    proof
      assume "fst ?next = suffixed base suffix (add_id + 1)"
      then show ?thesis by (intro exI [of _ "add_id + 1"]) simp
    next
      assume "\<exists>k > add_id + 1. fst ?next = suffixed base suffix k"
      then obtain k where "k > add_id + 1" "fst ?next = suffixed base suffix k" by blast
      then show ?thesis by (intro exI [of _ k]) simp
    qed
    with eq show ?thesis by simp
  next
    case False
    then show ?thesis
      by (subst no_overwrite_probe_unfold) simp
  qed
qed

lemma get_no_overwrite_path_snd: "snd (get_no_overwrite_path base suffix mk warn fs) = fs"
proof (cases "osp_exists fs (base @ suffix)")
  case True
  then show ?thesis
    using no_overwrite_probe_fs [of base suffix 1 "suffixed base suffix 1" fs]
    by (auto simp: get_no_overwrite_path_def stat_exists_def Let_def split: prod.split)
next
  case False
  then show ?thesis
    by (simp add: get_no_overwrite_path_def stat_exists_def Let_def)
qed

lemma get_no_overwrite_path_free:
  "\<not> osp_exists fs (fst (fst (get_no_overwrite_path base suffix mk warn fs)))"
proof (cases "osp_exists fs (base @ suffix)")
  case True
  then show ?thesis
    using no_overwrite_probe_free [of fs base suffix 1 "suffixed base suffix 1"]
    by (auto simp: get_no_overwrite_path_def stat_exists_def Let_def split: prod.split)
next
  case False
  then show ?thesis
    by (simp add: get_no_overwrite_path_def stat_exists_def Let_def)
qed

lemma get_no_overwrite_path_flags:
  "get_no_overwrite_path base suffix mk warn fs = get_no_overwrite_path base suffix mk' warn' fs"
  by (simp add: get_no_overwrite_path_def)

text \<open>
  Claim C9. \<^verbatim>\<open>get_no_overwrite_path\<close> never modifies the file system: whatever it
  returns, the file system it leaves is the one it was called on, so every path has the
  same existence status and the same content after the call as before it; and the flag
  \<^verbatim>\<open>make_folders_on_path\<close> has no effect on the result or on the file system (no
  directory is created).
\<close>

theorem get_no_overwrite_path_frame:
  assumes "get_no_overwrite_path base suffix mk warn fs = (r, fs')"
  shows "fs' = fs
    \<and> (\<forall>p. osp_exists fs' p = osp_exists fs p \<and> map_of fs' p = map_of fs p)
    \<and> get_no_overwrite_path base suffix (\<not> mk) warn fs = (r, fs')"
proof -
  from assms get_no_overwrite_path_snd [of base suffix mk warn fs] have "fs' = fs"
    by simp
  moreover from assms have "get_no_overwrite_path base suffix (\<not> mk) warn fs = (r, fs')"
    using get_no_overwrite_path_flags [of base suffix "\<not> mk" warn fs mk warn] by simp
  ultimately show ?thesis by simp
qed

text \<open>The claim at a path that is taken, called with and without the flag.\<close>

theorem get_no_overwrite_path_frame_witness:
  "get_no_overwrite_path ''/data/run'' ''.txt'' False False
      [(''/data'', Dir), (''/data/run.txt'', File (Raw ''x''))] =
   ((''/data/run_1.txt'', ''/data/run.txt''),
    [(''/data'', Dir), (''/data/run.txt'', File (Raw ''x''))])"
proof -
  have e: "get_no_overwrite_path ''/data/run'' ''.txt'' True False
      [(''/data'', Dir), (''/data/run.txt'', File (Raw ''x''))] =
   ((''/data/run_1.txt'', ''/data/run.txt''),
    [(''/data'', Dir), (''/data/run.txt'', File (Raw ''x''))])"
    by code_simp
  from get_no_overwrite_path_frame [OF e] show ?thesis by simp
qed

text \<open>
  Claim C3 as stated (two calls in succession, nothing else touching the file system,
  return two distinct paths) fails: with \<^verbatim>\<open>/data/run.txt\<close> present, both calls return
  \<^verbatim>\<open>/data/run_1.txt\<close>.
\<close>

theorem no_clobber_counterexample:
  "\<not> (fst (fst (get_no_overwrite_path ''/data/run'' ''.txt'' True False
          [(''/data'', Dir), (''/data/run.txt'', File (Raw ''x''))]))
     \<noteq> fst (fst (get_no_overwrite_path ''/data/run'' ''.txt'' True False
          (snd (get_no_overwrite_path ''/data/run'' ''.txt'' True False
            [(''/data'', Dir), (''/data/run.txt'', File (Raw ''x''))])))))"
  by code_simp

text \<open>
  Claim C3, amended. Two calls in succession with the same base path and suffix, with no
  other change of the file system in between, return the same pair of paths; the path
  they return does not exist on disk, and the requested path \<^verbatim>\<open>base + suffix\<close> holds
  after the second call what it held before the first.
\<close>

theorem get_no_overwrite_path_twice:
  assumes "get_no_overwrite_path base suffix mk warn fs = (r1, fs1)"
    and "get_no_overwrite_path base suffix mk warn fs1 = (r2, fs2)"
  shows "r2 = r1 \<and> \<not> osp_exists fs2 (fst r1) \<and> map_of fs2 (snd r1) = map_of fs (snd r1)"
proof -
  from assms(1) get_no_overwrite_path_snd [of base suffix mk warn fs] have a: "fs1 = fs"
    by simp
  from assms(2) get_no_overwrite_path_snd [of base suffix mk warn fs1] have b: "fs2 = fs1"
    by simp
  from assms a have "r2 = r1" by simp
  moreover from assms(1) get_no_overwrite_path_free [of fs base suffix mk warn]
  have "\<not> osp_exists fs (fst r1)" by simp
  ultimately show ?thesis using a b by simp
qed

text \<open>The amended claim with \<^verbatim>\<open>/data/run.txt\<close> pre-populated.\<close>

theorem get_no_overwrite_path_twice_witness:
  "get_no_overwrite_path ''/data/run'' ''.txt'' True False
      [(''/data'', Dir), (''/data/run.txt'', File (Raw ''x''))] =
     ((''/data/run_1.txt'', ''/data/run.txt''),
      [(''/data'', Dir), (''/data/run.txt'', File (Raw ''x''))])
   \<and> \<not> osp_exists [(''/data'', Dir), (''/data/run.txt'', File (Raw ''x''))] ''/data/run_1.txt''
   \<and> map_of [(''/data'', Dir), (''/data/run.txt'', File (Raw ''x''))] ''/data/run.txt''
       = Some (File (Raw ''x''))"
proof -
  have e: "get_no_overwrite_path ''/data/run'' ''.txt'' True False
      [(''/data'', Dir), (''/data/run.txt'', File (Raw ''x''))] =
   ((''/data/run_1.txt'', ''/data/run.txt''),
    [(''/data'', Dir), (''/data/run.txt'', File (Raw ''x''))])"
    by code_simp
  from get_no_overwrite_path_twice [OF e e] e show ?thesis by simp
qed

section \<open>Properties of paths and of the file system\<close>

lemma pjoin_inj: "pjoin p a = pjoin p b \<Longrightarrow> a = b"
  by (simp add: pjoin_def split: if_splits)

lemma dropWhile_to_slash:
  "CHR ''/'' \<notin> set xs \<Longrightarrow>
    dropWhile (\<lambda>c. c \<noteq> CHR ''/'') (xs @ CHR ''/'' # rest) = CHR ''/'' # rest"
  by (induction xs) auto

lemma osp_dirname_pjoin:
  assumes "is_normal p" and "CHR ''/'' \<notin> set name"
  shows "osp_dirname (pjoin p name) = p"
proof (cases "p = ''/''")
  case True
  from assms(2) have "dropWhile (\<lambda>c. c \<noteq> CHR ''/'') (rev name @ ''/'') = ''/''"
    using dropWhile_to_slash [of "rev name" "[]"] by simp
  with True show ?thesis
    by (simp add: pjoin_def osp_dirname_def)
next
  case False
  with assms(1) have ne: "p \<noteq> []" and l: "last p \<noteq> CHR ''/''"
    by (auto simp: is_normal_def)
  from assms(2) have d: "dropWhile (\<lambda>c. c \<noteq> CHR ''/'') (rev name @ CHR ''/'' # rev p) = CHR ''/'' # rev p"
    using dropWhile_to_slash [of "rev name" "rev p"] by simp
  from ne l have h: "hd (rev p) \<noteq> CHR ''/''" "rev p \<noteq> []"
    by (simp_all add: hd_rev)
  then have r: "dropWhile (\<lambda>c. c = CHR ''/'') (rev p) = rev p"
    by (cases "rev p") simp_all
  from ne l have "last p \<in> set p" by simp
  with l have na: "\<not> list_all (\<lambda>c. c = CHR ''/'') p"
    by (auto simp: list_all_iff)
  from ne l d r na show ?thesis
    by (simp add: pjoin_def osp_dirname_def rstrip_slash_def)
qed

lemma makedirs_new:
  assumes "\<not> osp_exists fs p" and "osp_dirname p = d" and "osp_isdir fs d" and "d \<noteq> []"
  shows "makedirs p fs = Inr (fs @ [(p, Dir)])"
proof -
  from assms(2,4) have "p \<noteq> []" by (auto simp: osp_dirname_def)
  moreover from assms(3) have "osp_exists fs d" by (simp add: osp_isdir_def osp_exists_def)
  moreover from assms(1) have "\<not> osp_isdir fs p" by (simp add: osp_isdir_def osp_exists_def)
  ultimately show ?thesis using assms
    by (subst makedirs.simps) (simp add: fs_mkdir_def)
qed

lemma osp_exists_append: "osp_exists (fs @ fs') p = (osp_exists fs p \<or> osp_exists fs' p)"
  by (auto simp: osp_exists_def)

lemma osp_isdir_append_old: "osp_isdir fs p \<Longrightarrow> osp_isdir (fs @ fs') p"
  by (simp add: osp_isdir_def)

lemma osp_isdir_append_new:
  "\<not> osp_exists fs p \<Longrightarrow> osp_isdir (fs @ fs') p = osp_isdir fs' p"
  by (simp add: osp_isdir_def osp_exists_def map_add_def)

section \<open>Properties of the sequential-counter allocator\<close>

text \<open>
  The names the loop of \<^verbatim>\<open>novel_start_of_folder\<close> probes: \<open>j\<close> hash signs, the counter
  \<open>c\<close>, an underscore and the label. The loop visits them in the order of \<open>rank\<close>; the
  names of rank at least \<open>r\<close> that are taken are \<open>ahead\<close>, and become fewer with every
  round, which is why the loop ends.
\<close>

definition probe_name :: "nat \<Rightarrow> int \<Rightarrow> string \<Rightarrow> string" where
  "probe_name j c sid = replicate j CHR ''#'' @ str_int c @ ''_'' @ sid"

lemma str_int_nonempty: "str_int c \<noteq> []"
  by (simp add: str_int_def str_nat_nonempty)

lemma str_int_hd_not_hash: "hd (str_int c) \<noteq> CHR ''#''"
proof (cases "c < 0")
  case True
  then show ?thesis by (simp add: str_int_def)
next
  case False
  have "hd (str_nat (nat c)) \<in> set (str_nat (nat c))"
    using str_nat_nonempty by simp
  with str_nat_digits [of "nat c"] False show ?thesis
    by (auto simp: str_int_def)
qed

lemma replicate_hash_inj:
  assumes "replicate j CHR ''#'' @ s = replicate j' CHR ''#'' @ s'"
    and "s \<noteq> []" "hd s \<noteq> CHR ''#''" "s' \<noteq> []" "hd s' \<noteq> CHR ''#''"
  shows "j = j' \<and> s = s'"
  using assms
proof (induction j arbitrary: j')
  case 0
  then show ?case by (cases j'; cases s) auto
next
  case (Suc j)
  then show ?case by (cases j'; cases s') auto
qed

lemma probe_name_inj:
  assumes "probe_name j c sid = probe_name j' c' sid"
  shows "j = j' \<and> c = c'"
proof -
  from assms have "replicate j CHR ''#'' @ str_int c = replicate j' CHR ''#'' @ str_int c'"
    by (simp add: probe_name_def)
  from replicate_hash_inj [OF this str_int_nonempty str_int_hd_not_hash
      str_int_nonempty str_int_hd_not_hash]
  show ?thesis by (auto dest: str_int_inj)
qed

lemma probe_name_no_slash:
  assumes "0 \<le> c" and "CHR ''/'' \<notin> set sid"
  shows "CHR ''/'' \<notin> set (probe_name j c sid)"
  using assms str_nat_digits [of "nat c"]
  by (auto simp: probe_name_def str_int_def)

definition rank :: "nat \<Rightarrow> int \<Rightarrow> nat" where
  "rank j c = j * 1000 + nat (999 - c)"

definition ahead :: "fs \<Rightarrow> path \<Rightarrow> string \<Rightarrow> nat \<Rightarrow> path set" where
  "ahead fs parent sid r =
     {p \<in> fst ` set fs. \<exists>j c. 100 \<le> c \<and> c \<le> 999 \<and> r \<le> rank j c
        \<and> p = pjoin parent (probe_name j c sid)}"

lemma ahead_less:
  assumes ex: "osp_exists fs (pjoin parent (probe_name j c sid))"
    and c: "100 \<le> c" "c \<le> 999" and r: "rank j c < r'"
  shows "card (ahead fs parent sid r') < card (ahead fs parent sid (rank j c))"
proof (rule psubset_card_mono)
  show "finite (ahead fs parent sid (rank j c))"
    by (simp add: ahead_def)
  from ex have "pjoin parent (probe_name j c sid) \<in> fst ` set fs"
    by (auto simp: osp_exists_def dest: map_of_SomeD intro: rev_image_eqI)
  with c have "pjoin parent (probe_name j c sid) \<in> ahead fs parent sid (rank j c)"
    unfolding ahead_def by blast
  moreover have "pjoin parent (probe_name j c sid) \<notin> ahead fs parent sid r'"
  proof
    assume "pjoin parent (probe_name j c sid) \<in> ahead fs parent sid r'"
    then obtain j' c' where "r' \<le> rank j' c'"
      "pjoin parent (probe_name j c sid) = pjoin parent (probe_name j' c' sid)"
      unfolding ahead_def by blast
    then have "r' \<le> rank j c"
      by (auto dest!: pjoin_inj probe_name_inj)
    with r show False by simp
  qed
  moreover have "ahead fs parent sid r' \<subseteq> ahead fs parent sid (rank j c)"
  proof
    fix p
    assume "p \<in> ahead fs parent sid r'"
    then obtain j' c' where "p \<in> fst ` set fs" "100 \<le> c'" "c' \<le> 999" "r' \<le> rank j' c'"
      "p = pjoin parent (probe_name j' c' sid)"
      unfolding ahead_def by blast
    moreover from this r have "rank j c \<le> rank j' c'" by simp
    ultimately show "p \<in> ahead fs parent sid (rank j c)"
      unfolding ahead_def by blast
  qed
  ultimately show "ahead fs parent sid r' \<subset> ahead fs parent sid (rank j c)"
    by blast
qed

lemma novel_start_loop_total:
  assumes "100 \<le> c" "c \<le> 999"
    and "folder_path = pjoin parent (probe_name j c sid)"
    and "if c = 100 then prefix = replicate (Suc j) CHR ''#'' \<and> counter = 999
         else prefix = replicate j CHR ''#'' \<and> counter = c"
  shows "\<exists>j' c'. 100 \<le> c' \<and> c' \<le> 999
    \<and> novel_start_loop fs parent sid prefix counter folder_path
        = Some (pjoin parent (probe_name j' c' sid))
    \<and> \<not> osp_exists fs (pjoin parent (probe_name j' c' sid))"
  using assms
proof (induction "card (ahead fs parent sid (rank j c))"
    arbitrary: j c prefix counter folder_path rule: less_induct)
  case less
  show ?case
  proof (cases "osp_exists fs folder_path")
    case False
    with less.prems show ?thesis
      by (subst novel_start_loop.simps) auto
  next
    case True
    with less.prems have ex: "osp_exists fs (pjoin parent (probe_name j c sid))" by simp
    consider "c = 100" | "c = 101" | "101 < c" using less.prems(1) by linarith
    then show ?thesis
    proof cases
      case 1
      with less.prems have st: "prefix = replicate (Suc j) CHR ''#''" "counter = 999" by simp_all
      have r: "rank j c < rank (Suc j) 998" using 1 by (simp add: rank_def)
      have "\<exists>j' c'. 100 \<le> c' \<and> c' \<le> 999
        \<and> novel_start_loop fs parent sid prefix 998 (pjoin parent (probe_name (Suc j) 998 sid))
            = Some (pjoin parent (probe_name j' c' sid))
        \<and> \<not> osp_exists fs (pjoin parent (probe_name j' c' sid))"
        by (rule less.hyps [OF ahead_less [OF ex less.prems(1,2) r]]) (simp_all add: st)
      moreover have "novel_start_loop fs parent sid prefix counter folder_path
        = novel_start_loop fs parent sid prefix 998 (pjoin parent (probe_name (Suc j) 998 sid))"
        using True st by (subst novel_start_loop.simps) (simp add: probe_name_def)
      ultimately show ?thesis by simp
    next
      case 2
      with less.prems have st: "prefix = replicate j CHR ''#''" "counter = 101" by simp_all
      have r: "rank j c < rank j 100" using 2 by (simp add: rank_def)
      have "\<exists>j' c'. 100 \<le> c' \<and> c' \<le> 999
        \<and> novel_start_loop fs parent sid (prefix @ ''#'') 999 (pjoin parent (probe_name j 100 sid))
            = Some (pjoin parent (probe_name j' c' sid))
        \<and> \<not> osp_exists fs (pjoin parent (probe_name j' c' sid))"
        by (rule less.hyps [OF ahead_less [OF ex less.prems(1,2) r]])
          (simp_all add: st replicate_append_same)
      moreover have "novel_start_loop fs parent sid prefix counter folder_path
        = novel_start_loop fs parent sid (prefix @ ''#'') 999 (pjoin parent (probe_name j 100 sid))"
        using True st by (subst novel_start_loop.simps) (simp add: probe_name_def)
      ultimately show ?thesis by simp
    next
      case 3
      with less.prems have st: "prefix = replicate j CHR ''#''" "counter = c" by simp_all
      have r: "rank j c < rank j (c - 1)" using 3 less.prems(2) by (simp add: rank_def)
      have "\<exists>j' c'. 100 \<le> c' \<and> c' \<le> 999
        \<and> novel_start_loop fs parent sid prefix (c - 1) (pjoin parent (probe_name j (c - 1) sid))
            = Some (pjoin parent (probe_name j' c' sid))
        \<and> \<not> osp_exists fs (pjoin parent (probe_name j' c' sid))"
        using 3 less.prems(2)
        by (intro less.hyps [OF ahead_less [OF ex less.prems(1,2) r]]) (simp_all add: st)
      moreover have "novel_start_loop fs parent sid prefix counter folder_path
        = novel_start_loop fs parent sid prefix (c - 1) (pjoin parent (probe_name j (c - 1) sid))"
        using True st 3 by (subst novel_start_loop.simps) (simp add: probe_name_def)
      ultimately show ?thesis by simp
    qed
  qed
qed

lemma novel_start_of_folder_returns:
  assumes "osp_isdir fs parent" and "is_normal parent" and "CHR ''/'' \<notin> set sid"
  shows "\<exists>p. novel_start_of_folder parent sid fs = Some (Inr p, fs @ [(p, Dir)])
    \<and> \<not> osp_exists fs p"
proof -
  have "\<exists>j' c'. 100 \<le> c' \<and> c' \<le> 999
    \<and> novel_start_loop fs parent sid [] 999 (pjoin parent (probe_name 0 999 sid))
        = Some (pjoin parent (probe_name j' c' sid))
    \<and> \<not> osp_exists fs (pjoin parent (probe_name j' c' sid))"
    by (rule novel_start_loop_total [of 999]) simp_all
  then obtain j c where c: "100 \<le> c" "c \<le> 999"
    and l: "novel_start_loop fs parent sid [] 999 (pjoin parent (probe_name 0 999 sid))
        = Some (pjoin parent (probe_name j c sid))"
    and free: "\<not> osp_exists fs (pjoin parent (probe_name j c sid))"
    by blast
  from c assms(3) have "CHR ''/'' \<notin> set (probe_name j c sid)"
    by (intro probe_name_no_slash) simp_all
  with assms(2) have d: "osp_dirname (pjoin parent (probe_name j c sid)) = parent"
    by (rule osp_dirname_pjoin)
  from assms(2) have "parent \<noteq> []" by (simp add: is_normal_def)
  with free d assms(1)
  have "makedirs (pjoin parent (probe_name j c sid)) fs
      = Inr (fs @ [(pjoin parent (probe_name j c sid), Dir)])"
    by (intro makedirs_new)
  with l free show ?thesis
    by (simp add: novel_start_of_folder_def probe_name_def)
qed

lemma novel_start_of_folder_times_returns:
  assumes "osp_isdir fs parent" and "is_normal parent" and "CHR ''/'' \<notin> set sid"
  shows "\<exists>ps. novel_start_of_folder_times n parent sid fs
        = Some (Inr ps, fs @ map (\<lambda>p. (p, Dir)) ps)
    \<and> length ps = n \<and> distinct ps \<and> (\<forall>p \<in> set ps. \<not> osp_exists fs p)"
  using assms(1)
proof (induction n arbitrary: fs)
  case 0
  then show ?case by simp
next
  case (Suc n)
  from novel_start_of_folder_returns [OF Suc.prems assms(2,3)]
  obtain p where p: "novel_start_of_folder parent sid fs = Some (Inr p, fs @ [(p, Dir)])"
    and free: "\<not> osp_exists fs p"
    by blast
  from Suc.prems have "osp_isdir (fs @ [(p, Dir)]) parent"
    by (rule osp_isdir_append_old)
  from Suc.IH [OF this]
  obtain ps where ps: "novel_start_of_folder_times n parent sid (fs @ [(p, Dir)])
        = Some (Inr ps, (fs @ [(p, Dir)]) @ map (\<lambda>p. (p, Dir)) ps)"
    and len: "length ps = n" and dist: "distinct ps"
    and new: "\<forall>q \<in> set ps. \<not> osp_exists (fs @ [(p, Dir)]) q"
    by blast
  from new have "p \<notin> set ps" and "\<forall>q \<in> set ps. \<not> osp_exists fs q"
    by (auto simp: osp_exists_append osp_exists_def)
  with p ps len dist free show ?case
    by (intro exI [of _ "p # ps"]) simp
qed

lemma osp_isdir_created:
  "p \<in> set ps \<Longrightarrow> \<not> osp_exists fs p \<Longrightarrow> osp_isdir (fs @ map (\<lambda>p. (p, Dir)) ps) p"
proof -
  assume p: "p \<in> set ps" and free: "\<not> osp_exists fs p"
  from p have "map_of (map (\<lambda>p. (p, Dir)) ps) p = Some Dir"
    by (induction ps) auto
  then have "osp_isdir (map (\<lambda>p. (p, Dir)) ps) p"
    by (simp add: osp_isdir_def)
  with osp_isdir_append_new [OF free] show ?thesis by simp
qed

text \<open>
  Claim C4. For every \<open>n\<close>, a sequence of \<open>n\<close> calls to \<^verbatim>\<open>novel_start_of_folder\<close> with
  the same parent directory and the same semantic label returns (every call ends, none
  raises) \<open>n\<close> pairwise distinct paths, and after the calls every one of them is a
  directory. The parent is an existing directory, empty or not; the label is part of one
  folder name, so it has no slash.
\<close>

theorem novel_start_of_folder_unique:
  assumes "osp_isdir fs parent" and "is_normal parent" and "CHR ''/'' \<notin> set semantic_id"
  shows "\<exists>ps fs'. novel_start_of_folder_times n parent semantic_id fs = Some (Inr ps, fs')
    \<and> length ps = n \<and> distinct ps \<and> (\<forall>p \<in> set ps. osp_isdir fs' p)"
proof -
  from novel_start_of_folder_times_returns [OF assms, of n]
  obtain ps where "novel_start_of_folder_times n parent semantic_id fs
        = Some (Inr ps, fs @ map (\<lambda>p. (p, Dir)) ps)"
    "length ps = n" "distinct ps" "\<forall>p \<in> set ps. \<not> osp_exists fs p"
    by blast
  then show ?thesis
    by (auto intro: osp_isdir_created)
qed

text \<open>Three allocations into the empty directory \<^verbatim>\<open>/store\<close> with the label \<^verbatim>\<open>unet\<close>.\<close>

theorem novel_start_of_folder_unique_witness:
  "novel_start_of_folder_times 3 ''/store'' ''unet'' [(''/store'', Dir)]
     = Some (Inr [''/store/999_unet'', ''/store/998_unet'', ''/store/997_unet''],
         [(''/store'', Dir), (''/store/999_unet'', Dir), (''/store/998_unet'', Dir),
          (''/store/997_unet'', Dir)])"
proof -
  have a: "osp_isdir [(''/store'', Dir)] ''/store''" by (simp add: osp_isdir_def)
  have b: "is_normal ''/store''" by (simp add: is_normal_def)
  have c: "CHR ''/'' \<notin> set ''unet''" by simp
  have e: "novel_start_of_folder_times 3 ''/store'' ''unet'' [(''/store'', Dir)]
     = Some (Inr [''/store/999_unet'', ''/store/998_unet'', ''/store/997_unet''],
         [(''/store'', Dir), (''/store/999_unet'', Dir), (''/store/998_unet'', Dir),
          (''/store/997_unet'', Dir)])"
    by code_simp
  from novel_start_of_folder_unique [OF a b c, of 3] e show ?thesis by simp
qed

section \<open>Properties of the random-alphanumeric allocator\<close>

lemma base62_length: "int (length ALPHANUM_CHARS) = 62"
  by (simp add: ALPHANUM_CHARS_def)

lemma to_base62_loop_chars:
  "set (to_base62_loop k num chars) \<subseteq> set chars \<union> set ALPHANUM_CHARS"
proof (induction k arbitrary: num chars)
  case 0
  then show ?case by simp
next
  case (Suc k)
  have "nat (num mod 62) < length ALPHANUM_CHARS"
    using base62_length by simp
  then have "ALPHANUM_CHARS ! nat (num mod 62) \<in> set ALPHANUM_CHARS"
    by (rule nth_mem)
  with Suc [of "num div 62" "chars @ [ALPHANUM_CHARS ! nat (num mod 62)]"] show ?case
    by (auto simp: base62_length)
qed

lemma to_base62_no_slash: "CHR ''/'' \<notin> set (to_base62 n d)"
proof -
  have "CHR ''/'' \<notin> set ALPHANUM_CHARS" by (simp add: ALPHANUM_CHARS_def)
  with to_base62_loop_chars [of d n "[]"] show ?thesis
    by (auto simp: to_base62_def)
qed

lemma novel_folder_anum_loop_total:
  assumes "0 \<le> n" "n < M" "0 \<le> k" "k < M"
    and "\<not> osp_exists fs (pjoin ptpf (to_base62 k d))"
  shows "\<exists>m. 0 \<le> m \<and> m < M \<and> \<not> osp_exists fs (pjoin ptpf (to_base62 m d))
    \<and> novel_folder_anum_loop fs ptpf d M n =
        Some (case makedirs (pjoin ptpf (to_base62 m d)) fs of
                Inl e \<Rightarrow> (Inl e, fs)
              | Inr fs1 \<Rightarrow> (Inr (pjoin ptpf (to_base62 m d)), fs1))"
  using assms(1,2)
proof (induction "nat (if n \<le> k then k - n else k - n + M)" arbitrary: n rule: less_induct)
  case less
  show ?case
  proof (cases "osp_exists fs (pjoin ptpf (to_base62 n d))")
    case False
    with less.prems show ?thesis
      by (intro exI [of _ n]) (simp add: novel_folder_anum_loop.simps)
  next
    case True
    with assms(5) have nk: "n \<noteq> k" by auto
    let ?n' = "(n + 1) mod M"
    have n': "?n' = (if n + 1 = M then 0 else n + 1)"
      using less.prems by (simp add: mod_pos_pos_trivial)
    have b: "0 \<le> ?n'" "?n' < M"
      using less.prems by simp_all
    have "nat (if ?n' \<le> k then k - ?n' else k - ?n' + M)
        < nat (if n \<le> k then k - n else k - n + M)"
      using nk less.prems assms(3,4) by (simp add: n')
    from less.hyps [OF this b]
    obtain m where "0 \<le> m" "m < M" "\<not> osp_exists fs (pjoin ptpf (to_base62 m d))"
      "novel_folder_anum_loop fs ptpf d M ?n' =
        Some (case makedirs (pjoin ptpf (to_base62 m d)) fs of
                Inl e \<Rightarrow> (Inl e, fs)
              | Inr fs1 \<Rightarrow> (Inr (pjoin ptpf (to_base62 m d)), fs1))"
      by blast
    moreover have "novel_folder_anum_loop fs ptpf d M n = novel_folder_anum_loop fs ptpf d M ?n'"
      using True by (subst novel_folder_anum_loop.simps) simp
    ultimately show ?thesis by auto
  qed
qed

text \<open>
  Claim C5. For \<^verbatim>\<open>digit_num = 2\<close> (3844 names), if some base-62 name of width 2 is free in
  the parent directory, \<^verbatim>\<open>novel_folder_anum\<close> ends, for every random start in \<open>[0, 3844)\<close>,
  and returns a name that was not in use, which it creates as a directory; when every
  slot but one is taken, it returns that slot.
\<close>

theorem novel_folder_anum_width_2:
  assumes "osp_isdir fs parent" and "is_normal parent"
    and "0 \<le> rand" "rand < 3844"
    and "0 \<le> k" "k < 3844"
    and "\<not> osp_exists fs (pjoin parent (to_base62 k 2))"
  shows "\<exists>m. 0 \<le> m \<and> m < 3844
    \<and> \<not> osp_exists fs (pjoin parent (to_base62 m 2))
    \<and> novel_folder_anum parent 2 rand fs =
        Some (Inr (pjoin parent (to_base62 m 2)), fs @ [(pjoin parent (to_base62 m 2), Dir)])
    \<and> osp_isdir (fs @ [(pjoin parent (to_base62 m 2), Dir)]) (pjoin parent (to_base62 m 2))
    \<and> ((\<forall>j. 0 \<le> j \<and> j < 3844 \<and> j \<noteq> k \<longrightarrow> osp_exists fs (pjoin parent (to_base62 j 2)))
        \<longrightarrow> m = k)"
proof -
  from novel_folder_anum_loop_total [OF assms(3-7)]
  obtain m where m: "0 \<le> m" "m < 3844"
    and free: "\<not> osp_exists fs (pjoin parent (to_base62 m 2))"
    and l: "novel_folder_anum_loop fs parent 2 3844 rand =
        Some (case makedirs (pjoin parent (to_base62 m 2)) fs of
                Inl e \<Rightarrow> (Inl e, fs)
              | Inr fs1 \<Rightarrow> (Inr (pjoin parent (to_base62 m 2)), fs1))"
    by blast
  from assms(2) to_base62_no_slash
  have "osp_dirname (pjoin parent (to_base62 m 2)) = parent"
    by (rule osp_dirname_pjoin)
  moreover from assms(2) have "parent \<noteq> []" by (simp add: is_normal_def)
  ultimately have mk: "makedirs (pjoin parent (to_base62 m 2)) fs
      = Inr (fs @ [(pjoin parent (to_base62 m 2), Dir)])"
    using free assms(1) by (intro makedirs_new)
  have "novel_folder_anum parent 2 rand fs =
      Some (Inr (pjoin parent (to_base62 m 2)), fs @ [(pjoin parent (to_base62 m 2), Dir)])"
    using l mk by (simp add: novel_folder_anum_def base62_length)
  moreover have "osp_isdir (fs @ [(pjoin parent (to_base62 m 2), Dir)])
      (pjoin parent (to_base62 m 2))"
    using free by (simp add: osp_isdir_append_new) (simp add: osp_isdir_def)
  moreover have "(\<forall>j. 0 \<le> j \<and> j < 3844 \<and> j \<noteq> k \<longrightarrow> osp_exists fs (pjoin parent (to_base62 j 2)))
        \<longrightarrow> m = k"
    using m free by blast
  ultimately show ?thesis using m free by blast
qed

text \<open>
  The directory \<^verbatim>\<open>/store\<close> with every slot of width 2 taken but slot \<open>k\<close>; the witness
  below starts at 20 and finds slot 17, the name \<^verbatim>\<open>0H\<close>, after going round.
\<close>

definition all_but :: "int \<Rightarrow> fs" where
  "all_but k = (''/store'', Dir) #
     map (\<lambda>j. (pjoin ''/store'' (to_base62 j 2), Dir)) (filter (\<lambda>j. j \<noteq> k) (map int [0..<3844]))"

lemma to_base62_2:
  "to_base62 n 2 = [ALPHANUM_CHARS ! nat (n div 62 mod 62), ALPHANUM_CHARS ! nat (n mod 62)]"
  by (simp add: to_base62_def numeral_2_eq_2 base62_length)

lemma ALPHANUM_CHARS_distinct: "distinct ALPHANUM_CHARS"
  by (simp add: ALPHANUM_CHARS_def)

lemma ALPHANUM_CHARS_nth_inj:
  assumes "0 \<le> i" "i < 62" "0 \<le> j" "j < 62"
    and "ALPHANUM_CHARS ! nat i = ALPHANUM_CHARS ! nat j"
  shows "i = j"
proof -
  have len: "length ALPHANUM_CHARS = 62" by (simp add: ALPHANUM_CHARS_def)
  from assms(1-4) have "nat i < length ALPHANUM_CHARS" "nat j < length ALPHANUM_CHARS"
    unfolding len by simp_all
  from nth_eq_iff_index_eq [OF ALPHANUM_CHARS_distinct this] assms(5) have "nat i = nat j"
    by blast
  with assms(1,3) show ?thesis by simp
qed

lemma base62_digits_eq:
  "(a::int) div 62 = b div 62 \<Longrightarrow> a mod 62 = b mod 62 \<Longrightarrow> a = b"
  by (metis div_mult_mod_eq)

lemma base62_high_digit: "0 \<le> (a::int) \<Longrightarrow> a < 3844 \<Longrightarrow> a div 62 mod 62 = a div 62"
  by simp

lemma to_base62_2_inj:
  assumes "0 \<le> a" "a < 3844" "0 \<le> b" "b < 3844" and "to_base62 a 2 = to_base62 b 2"
  shows "a = b"
proof -
  from assms(5) have
    hi: "ALPHANUM_CHARS ! nat (a div 62 mod 62) = ALPHANUM_CHARS ! nat (b div 62 mod 62)" and
    lo: "ALPHANUM_CHARS ! nat (a mod 62) = ALPHANUM_CHARS ! nat (b mod 62)"
    by (simp_all add: to_base62_2)
  have "a div 62 = a div 62 mod 62"
    by (rule base62_high_digit [OF assms(1,2), symmetric])
  also have "\<dots> = b div 62 mod 62"
    by (rule ALPHANUM_CHARS_nth_inj [OF _ _ _ _ hi]) simp_all
  also have "\<dots> = b div 62"
    by (rule base62_high_digit [OF assms(3,4)])
  finally have "a div 62 = b div 62" .
  moreover have "a mod 62 = b mod 62"
    by (rule ALPHANUM_CHARS_nth_inj [OF _ _ _ _ lo]) simp_all
  ultimately show ?thesis by (rule base62_digits_eq)
qed

lemma all_but_free:
  assumes "0 \<le> k" "k < 3844"
  shows "\<not> osp_exists (all_but k) (pjoin ''/store'' (to_base62 k 2))"
proof
  assume "osp_exists (all_but k) (pjoin ''/store'' (to_base62 k 2))"
  then have "pjoin ''/store'' (to_base62 k 2) \<in> fst ` set (all_but k)"
    by (auto simp: osp_exists_def dest: map_of_SomeD intro: rev_image_eqI)
  moreover have "pjoin ''/store'' (to_base62 k 2) \<noteq> ''/store''"
    by (simp add: pjoin_def)
  ultimately obtain j where j: "j \<noteq> k" "0 \<le> j" "j < 3844"
    and e: "pjoin ''/store'' (to_base62 k 2) = pjoin ''/store'' (to_base62 j 2)"
    by (auto simp: all_but_def)
  from e have "to_base62 k 2 = to_base62 j 2" by (rule pjoin_inj)
  from to_base62_2_inj [OF assms j(2,3) this] j(1) show False by simp
qed

lemma all_but_taken:
  assumes "0 \<le> j" "j < 3844" "j \<noteq> k"
  shows "osp_exists (all_but k) (pjoin ''/store'' (to_base62 j 2))"
proof -
  from assms have "j \<in> set (filter (\<lambda>j. j \<noteq> k) (map int [0..<3844]))"
    by (auto intro: image_eqI [of _ _ "nat j"])
  then have "pjoin ''/store'' (to_base62 j 2) \<in> fst ` set (all_but k)"
    by (force simp: all_but_def)
  then show ?thesis
    by (auto simp: osp_exists_def map_of_eq_None_iff)
qed

theorem novel_folder_anum_width_2_witness:
  "novel_folder_anum ''/store'' 2 20 (all_but 17)
     = Some (Inr ''/store/0H'', all_but 17 @ [(''/store/0H'', Dir)])"
proof -
  have a: "osp_isdir (all_but 17) ''/store''"
    unfolding all_but_def osp_isdir_def by (rule map_of_Cons_code(2) [THEN trans]) simp
  have b: "is_normal ''/store''" by (simp add: is_normal_def)
  have f: "\<not> osp_exists (all_but 17) (pjoin ''/store'' (to_base62 17 2))"
    by (rule all_but_free) simp_all
  have t: "\<forall>j. 0 \<le> j \<and> j < 3844 \<and> j \<noteq> 17
      \<longrightarrow> osp_exists (all_but 17) (pjoin ''/store'' (to_base62 j 2))"
    by (simp add: all_but_taken)
  have n: "pjoin ''/store'' (to_base62 17 2) = ''/store/0H''"
    by (simp add: to_base62_2 pjoin_def ALPHANUM_CHARS_def)
  have "\<exists>m. 0 \<le> m \<and> m < 3844
    \<and> \<not> osp_exists (all_but 17) (pjoin ''/store'' (to_base62 m 2))
    \<and> novel_folder_anum ''/store'' 2 20 (all_but 17) =
        Some (Inr (pjoin ''/store'' (to_base62 m 2)),
          all_but 17 @ [(pjoin ''/store'' (to_base62 m 2), Dir)])
    \<and> osp_isdir (all_but 17 @ [(pjoin ''/store'' (to_base62 m 2), Dir)])
        (pjoin ''/store'' (to_base62 m 2))
    \<and> ((\<forall>j. 0 \<le> j \<and> j < 3844 \<and> j \<noteq> 17
          \<longrightarrow> osp_exists (all_but 17) (pjoin ''/store'' (to_base62 j 2)))
        \<longrightarrow> m = 17)"
    by (rule novel_folder_anum_width_2 [OF a b _ _ _ _ f]) simp_all
  with t obtain m where "m = 17" "novel_folder_anum ''/store'' 2 20 (all_but 17) =
        Some (Inr (pjoin ''/store'' (to_base62 m 2)),
          all_but 17 @ [(pjoin ''/store'' (to_base62 m 2), Dir)])"
    by blast
  with n show ?thesis by simp
qed

section \<open>Properties of the non-duplicate backups\<close>

lemma osp_exists_update: "osp_exists (AList.update k v fs) p = (p = k \<or> osp_exists fs p)"
  by (simp add: osp_exists_def update_conv')

lemma map_of_update_other: "p \<noteq> k \<Longrightarrow> map_of (AList.update k v fs) p = map_of fs p"
  by (simp add: update_conv')

lemma map_of_update_same: "map_of (AList.update k v fs) k = Some v"
  by (simp add: update_conv')

lemma osp_basename_no_slash: "CHR ''/'' \<notin> set (osp_basename p)"
  by (auto simp: osp_basename_def dest: set_takeWhileD)

lemma makedirs_isdir: "osp_isdir fs p \<Longrightarrow> makedirs p fs = Inr fs"
  by (subst makedirs.simps) simp

lemma fs_mkdir_result:
  "fs_mkdir p fs = Inr fs1 \<Longrightarrow> fs1 = fs @ [(p, Dir)] \<and> \<not> osp_exists fs p"
  by (auto simp: fs_mkdir_def Let_def split: if_splits)

lemma osp_isdir_mkdir: "\<not> osp_exists fs p \<Longrightarrow> osp_isdir (fs @ [(p, Dir)]) p"
  by (simp add: osp_isdir_append_new) (simp add: osp_isdir_def)

text \<open>
  What \<^verbatim>\<open>os.makedirs\<close> leaves when it succeeds: the entries that were there, new ones
  after them, and the path asked for as a directory.
\<close>

lemma makedirs_extends:
  "makedirs p fs = Inr fs1 \<Longrightarrow> (\<exists>extra. fs1 = fs @ extra) \<and> osp_isdir fs1 p"
proof (induction p fs arbitrary: fs1 rule: makedirs.induct)
  case (1 p fs)
  show ?case
  proof (cases "osp_isdir fs p")
    case True
    with "1.prems" have "fs1 = fs" by (subst (asm) makedirs.simps) simp
    with True show ?thesis by simp
  next
    case nd: False
    show ?thesis
    proof (cases "osp_exists fs p")
      case True
      with nd "1.prems" show ?thesis by (subst (asm) makedirs.simps) simp
    next
      case ne: False
      show ?thesis
      proof (cases "osp_dirname p = [] \<or> osp_dirname p = p \<or> osp_exists fs (osp_dirname p)")
        case True
        with nd ne "1.prems" have "fs_mkdir p fs = Inr fs1"
          by (subst (asm) makedirs.simps) simp
        from fs_mkdir_result [OF this] have "fs1 = fs @ [(p, Dir)]" by simp
        with ne show ?thesis by (simp add: osp_isdir_mkdir)
      next
        case False
        with nd ne "1.prems" obtain fs0 where m: "makedirs (osp_dirname p) fs = Inr fs0"
          and k: "fs_mkdir p fs0 = Inr fs1"
          by (subst (asm) makedirs.simps) (auto split: sum.splits)
        from "1.IH" [OF nd ne False m] obtain extra where e: "fs0 = fs @ extra" by blast
        from fs_mkdir_result [OF k] have r: "fs1 = fs0 @ [(p, Dir)]" "\<not> osp_exists fs0 p"
          by simp_all
        from r(1) e have "fs1 = fs @ (extra @ [(p, Dir)])" by simp
        moreover from r have "osp_isdir fs1 p" by (simp add: osp_isdir_mkdir)
        ultimately show ?thesis by blast
      qed
    qed
  qed
qed

lemma map_of_append_old: "osp_exists fs p \<Longrightarrow> map_of (fs @ extra) p = map_of fs p"
  by (auto simp: osp_exists_def map_add_def split: option.splits)

lemma sh_copy2_new:
  assumes "map_of fs src = Some (File c)" and "\<not> osp_exists fs dst"
    and "osp_isdir fs (osp_dirname dst)"
  shows "sh_copy2 src dst fs = Inr (AList.update dst (File c) fs)"
proof -
  from assms(2) have nd: "\<not> osp_isdir fs dst" by (simp add: osp_isdir_def osp_exists_def)
  from assms(1,2) have ne: "src \<noteq> dst" by (auto simp: osp_exists_def)
  from assms(2,3) have dd: "osp_dirname dst \<noteq> dst" by (auto simp: osp_isdir_def osp_exists_def)
  have "osp_dirname [] = []" by (simp add: osp_dirname_def)
  with dd have d: "dst \<noteq> []" by auto
  from nd ne d dd assms(1,3) show ?thesis
    by (simp add: sh_copy2_def fs_read_def fs_write_def)
qed

text \<open>
  The path \<^verbatim>\<open>osp.join(path_to_backup_folder, osp.basename(path))\<close> a source is copied to.
\<close>

definition backup_path :: "path \<Rightarrow> path \<Rightarrow> path" where
  "backup_path bk s = osp_join bk (osp_basename s)"

lemma backup_path_inj:
  "backup_path bk s = backup_path bk t \<Longrightarrow> osp_basename s = osp_basename t"
proof -
  have a: "\<And>u. \<not> (osp_basename u \<noteq> [] \<and> hd (osp_basename u) = CHR ''/'')"
    using osp_basename_no_slash by (metis hd_in_set)
  assume "backup_path bk s = backup_path bk t"
  then show ?thesis
    unfolding backup_path_def osp_join_def using a [of s] a [of t]
    by (simp split: if_splits)
qed

text \<open>
  The folder \<^verbatim>\<open>osp.dirname(backup_path)\<close> that \<^verbatim>\<open>os.makedirs\<close> is asked for is the same
  for every source: it depends on the backup folder only.
\<close>

lemma backup_folder_same:
  "osp_dirname (backup_path bk s) = osp_dirname (backup_path bk t)"
proof -
  have h: "\<And>u. dropWhile (\<lambda>c. c \<noteq> CHR ''/'') (rev (backup_path bk u))
      = dropWhile (\<lambda>c. c \<noteq> CHR ''/'') (rev (osp_join bk []))"
  proof -
    fix u
    let ?n = "osp_basename u"
    have ns: "CHR ''/'' \<notin> set (rev ?n)" using osp_basename_no_slash [of u] by simp
    then have nh: "\<not> (?n \<noteq> [] \<and> hd ?n = CHR ''/'')"
      using osp_basename_no_slash [of u] by (metis hd_in_set)
    have all: "\<And>xs. CHR ''/'' \<notin> set xs \<Longrightarrow> dropWhile (\<lambda>c. c \<noteq> CHR ''/'') xs = []"
      by auto
    have j: "backup_path bk u
        = (if bk = [] \<or> last bk = CHR ''/'' then bk @ ?n else bk @ ''/'' @ ?n)"
      using nh by (auto simp: backup_path_def osp_join_def)
    have j0: "osp_join bk [] = (if bk = [] \<or> last bk = CHR ''/'' then bk else bk @ ''/'')"
      by (simp add: osp_join_def)
    show "dropWhile (\<lambda>c. c \<noteq> CHR ''/'') (rev (backup_path bk u))
      = dropWhile (\<lambda>c. c \<noteq> CHR ''/'') (rev (osp_join bk []))"
    proof (cases "bk = []")
      case True
      with all [OF ns] show ?thesis unfolding j j0 by simp
    next
      case ne: False
      show ?thesis
      proof (cases "last bk = CHR ''/''")
        case True
        with ne obtain pre where p: "rev bk = CHR ''/'' # pre"
          by (cases "rev bk") (auto simp: last_rev [symmetric] simp del: last_rev)
        from True dropWhile_to_slash [OF ns, of pre] show ?thesis
          unfolding j j0 by (simp add: p)
      next
        case False
        with ne dropWhile_to_slash [OF ns, of "rev bk"] show ?thesis
          unfolding j j0 by simp
      qed
    qed
  qed
  show ?thesis unfolding osp_dirname_def h [of s] h [of t] ..
qed

text \<open>
  What the first call needs to find for every source to be copied: the existing sources
  are regular files with pairwise different names, none of them has a namesake in the
  backup folder, and no missing source is the place an existing one is copied to.
\<close>

definition backup_ready :: "fs \<Rightarrow> path \<Rightarrow> path list \<Rightarrow> bool" where
  "backup_ready fs bk srcs =
     ((\<forall>s \<in> set srcs. osp_exists fs s \<longrightarrow>
          (\<exists>c. map_of fs s = Some (File c))
          \<and> osp_isdir fs (osp_dirname (backup_path bk s))
          \<and> \<not> osp_exists fs (backup_path bk s))
      \<and> distinct (map osp_basename (filter (osp_exists fs) srcs))
      \<and> (\<forall>s \<in> set srcs. \<not> osp_exists fs s \<longrightarrow>
          s \<notin> backup_path bk ` {t \<in> set srcs. osp_exists fs t}))"

lemma backup_ready_tail: "backup_ready fs bk (s # rest) \<Longrightarrow> backup_ready fs bk rest"
  by (auto simp: backup_ready_def split: if_splits)

lemma backups_loop_missing:
  "\<not> osp_exists fs s \<Longrightarrow>
    backups_loop (s # rest) bk did fs = backups_loop rest bk (did @ [None]) fs"
  by simp

lemma backups_loop_present:
  "osp_exists fs s \<Longrightarrow> osp_exists fs (backup_path bk s) \<Longrightarrow>
    backups_loop (s # rest) bk did fs = backups_loop rest bk (did @ [Some False]) fs"
  by (simp add: backup_path_def)

lemma backups_loop_copy:
  assumes "osp_isdir fs (osp_dirname (backup_path bk s))"
    and "map_of fs s = Some (File c)" and "\<not> osp_exists fs (backup_path bk s)"
  shows "backups_loop (s # rest) bk did fs =
    backups_loop rest bk (did @ [Some True]) (AList.update (backup_path bk s) (File c) fs)"
proof -
  have m: "makedirs (osp_dirname (backup_path bk s)) fs = Inr fs"
    using assms(1) by (rule makedirs_isdir)
  have c: "sh_copy2 s (backup_path bk s) fs = Inr (AList.update (backup_path bk s) (File c) fs)"
    using assms(2,3,1) by (rule sh_copy2_new)
  from assms(2) have "osp_exists fs s" by (simp add: osp_exists_def)
  with assms(3) m c show ?thesis
    by (simp add: backup_path_def)
qed

declare backups_loop.simps(2) [simp del]

lemma backup_ready_step:
  assumes r: "backup_ready fs bk (s # rest)"
    and s: "map_of fs s = Some (File c)"
  shows "backup_ready (AList.update (backup_path bk s) (File c) fs) bk rest"
    and "\<forall>t \<in> set rest. osp_exists (AList.update (backup_path bk s) (File c) fs) t = osp_exists fs t"
proof -
  let ?fs = "AList.update (backup_path bk s) (File c) fs"
  from s have es: "osp_exists fs s" by (simp add: osp_exists_def)
  with r have free: "\<not> osp_exists fs (backup_path bk s)"
    by (simp add: backup_ready_def)
  show k: "\<forall>t \<in> set rest. osp_exists ?fs t = osp_exists fs t"
  proof
    fix t assume t: "t \<in> set rest"
    show "osp_exists ?fs t = osp_exists fs t"
    proof (cases "osp_exists fs t")
      case True
      then show ?thesis by (simp add: osp_exists_update)
    next
      case False
      with r t have "t \<notin> backup_path bk ` {u \<in> set (s # rest). osp_exists fs u}"
        by (simp add: backup_ready_def)
      with es have "t \<noteq> backup_path bk s" by auto
      with False show ?thesis by (simp add: osp_exists_update)
    qed
  qed
  then have f: "filter (osp_exists ?fs) rest = filter (osp_exists fs) rest"
    by (intro filter_cong) simp_all
  from r es have dist: "osp_basename s \<notin> set (map osp_basename (filter (osp_exists fs) rest))"
    "distinct (map osp_basename (filter (osp_exists fs) rest))"
    by (simp_all add: backup_ready_def)
  have c1: "\<forall>t \<in> set rest. osp_exists ?fs t \<longrightarrow>
      (\<exists>c'. map_of ?fs t = Some (File c'))
      \<and> osp_isdir ?fs (osp_dirname (backup_path bk t))
      \<and> \<not> osp_exists ?fs (backup_path bk t)"
  proof (intro ballI impI)
    fix t assume t: "t \<in> set rest" and "osp_exists ?fs t"
    with k have et: "osp_exists fs t" by simp
    with r t obtain c' where c': "map_of fs t = Some (File c')"
      and dt: "osp_isdir fs (osp_dirname (backup_path bk t))"
      and ft: "\<not> osp_exists fs (backup_path bk t)"
      by (auto simp: backup_ready_def)
    from dt free have "osp_dirname (backup_path bk t) \<noteq> backup_path bk s"
      by (auto simp: osp_isdir_def osp_exists_def)
    with dt have dt': "osp_isdir ?fs (osp_dirname (backup_path bk t))"
      by (simp add: osp_isdir_def map_of_update_other)
    from et free have "t \<noteq> backup_path bk s" by auto
    with c' have "map_of ?fs t = Some (File c')" by (simp add: map_of_update_other)
    moreover have "backup_path bk t \<noteq> backup_path bk s"
    proof
      assume "backup_path bk t = backup_path bk s"
      then have e: "osp_basename t = osp_basename s" by (rule backup_path_inj)
      from t et have "osp_basename t \<in> set (map osp_basename (filter (osp_exists fs) rest))"
        by simp
      then have "osp_basename s \<in> set (map osp_basename (filter (osp_exists fs) rest))"
        unfolding e .
      with dist(1) show False by blast
    qed
    with ft have "\<not> osp_exists ?fs (backup_path bk t)" by (simp add: osp_exists_update)
    ultimately show "(\<exists>c'. map_of ?fs t = Some (File c'))
        \<and> osp_isdir ?fs (osp_dirname (backup_path bk t))
        \<and> \<not> osp_exists ?fs (backup_path bk t)"
      using dt' by blast
  qed
  have c3: "\<forall>t \<in> set rest. \<not> osp_exists ?fs t \<longrightarrow>
      t \<notin> backup_path bk ` {u \<in> set rest. osp_exists ?fs u}"
  proof (intro ballI impI)
    fix t assume t: "t \<in> set rest" and "\<not> osp_exists ?fs t"
    with k have "\<not> osp_exists fs t" by simp
    with r t have "t \<notin> backup_path bk ` {u \<in> set (s # rest). osp_exists fs u}"
      by (simp add: backup_ready_def)
    moreover have "{u \<in> set rest. osp_exists ?fs u} \<subseteq> {u \<in> set (s # rest). osp_exists fs u}"
      using k by auto
    ultimately show "t \<notin> backup_path bk ` {u \<in> set rest. osp_exists ?fs u}" by blast
  qed
  from c1 c3 dist(2) show "backup_ready ?fs bk rest"
    unfolding backup_ready_def f by blast
qed

lemma backups_first_pass:
  "backup_ready fs bk srcs \<Longrightarrow>
    \<exists>fs1. backups_loop srcs bk did fs =
        (Inr (did @ map (\<lambda>s. if osp_exists fs s then Some True else None) srcs), fs1)
      \<and> (\<forall>p. osp_exists fs1 p =
            (osp_exists fs p \<or> p \<in> backup_path bk ` {t \<in> set srcs. osp_exists fs t}))"
proof (induction srcs arbitrary: fs did)
  case Nil
  then show ?case by simp
next
  case (Cons s rest)
  show ?case
  proof (cases "osp_exists fs s")
    case False
    from Cons.IH [OF backup_ready_tail [OF Cons.prems], of "did @ [None]"]
    obtain fs1 where
      l: "backups_loop rest bk (did @ [None]) fs =
        (Inr ((did @ [None]) @ map (\<lambda>s. if osp_exists fs s then Some True else None) rest), fs1)"
      and e: "\<forall>p. osp_exists fs1 p =
            (osp_exists fs p \<or> p \<in> backup_path bk ` {t \<in> set rest. osp_exists fs t})"
      by blast
    from False have "{t \<in> set (s # rest). osp_exists fs t} = {t \<in> set rest. osp_exists fs t}"
      by auto
    with e have "\<forall>p. osp_exists fs1 p =
            (osp_exists fs p \<or> p \<in> backup_path bk ` {t \<in> set (s # rest). osp_exists fs t})"
      by simp
    moreover from l False have "backups_loop (s # rest) bk did fs =
        (Inr (did @ map (\<lambda>s. if osp_exists fs s then Some True else None) (s # rest)), fs1)"
      by (simp add: backups_loop_missing)
    ultimately show ?thesis by blast
  next
    case True
    with Cons.prems obtain c where c: "map_of fs s = Some (File c)"
      and dir: "osp_isdir fs (osp_dirname (backup_path bk s))"
      and free: "\<not> osp_exists fs (backup_path bk s)"
      by (auto simp: backup_ready_def)
    let ?fs = "AList.update (backup_path bk s) (File c) fs"
    note step = backup_ready_step [OF Cons.prems c]
    from Cons.IH [OF step(1), of "did @ [Some True]"]
    obtain fs1 where
      l: "backups_loop rest bk (did @ [Some True]) ?fs =
        (Inr ((did @ [Some True]) @ map (\<lambda>s. if osp_exists ?fs s then Some True else None) rest),
         fs1)"
      and e: "\<forall>p. osp_exists fs1 p =
            (osp_exists ?fs p \<or> p \<in> backup_path bk ` {t \<in> set rest. osp_exists ?fs t})"
      by blast
    from step(2) have m: "map (\<lambda>s. if osp_exists ?fs s then Some True else None) rest
        = map (\<lambda>s. if osp_exists fs s then Some True else None) rest"
      by (intro map_cong) simp_all
    from step(2) have st: "{t \<in> set rest. osp_exists ?fs t} = {t \<in> set rest. osp_exists fs t}"
      by auto
    from True have "{t \<in> set (s # rest). osp_exists fs t}
        = insert s {t \<in> set rest. osp_exists fs t}"
      by auto
    with e st have "\<forall>p. osp_exists fs1 p =
            (osp_exists fs p \<or> p \<in> backup_path bk ` {t \<in> set (s # rest). osp_exists fs t})"
      by (auto simp: osp_exists_update)
    moreover from l m True have "backups_loop (s # rest) bk did fs =
        (Inr (did @ map (\<lambda>s. if osp_exists fs s then Some True else None) (s # rest)), fs1)"
      by (simp add: backups_loop_copy [OF dir c free])
    ultimately show ?thesis by blast
  qed
qed

lemma backups_second_pass:
  "\<forall>s \<in> set srcs. osp_exists fs s \<longrightarrow> osp_exists fs (backup_path bk s) \<Longrightarrow>
    backups_loop srcs bk did fs =
      (Inr (did @ map (\<lambda>s. if osp_exists fs s then Some False else None) srcs), fs)"
proof (induction srcs arbitrary: did)
  case Nil
  then show ?case by simp
next
  case (Cons s rest)
  then show ?case
    by (cases "osp_exists fs s") (simp_all add: backups_loop_missing backups_loop_present)
qed

text \<open>
  Before the backup folder is there, the loop does what it does once the folder is made,
  as long as there is a source to copy: the first copy makes the folder.
\<close>

lemma backups_loop_prepared:
  assumes "\<forall>s \<in> set srcs. osp_exists fs0 s = osp_exists fs s"
    and "\<forall>s \<in> set srcs. osp_exists fs s \<longrightarrow>
          makedirs (osp_dirname (backup_path bk s)) fs = Inr fs0
          \<and> \<not> osp_exists fs0 (backup_path bk s)"
  shows "\<exists>s \<in> set srcs. osp_exists fs s \<Longrightarrow>
    backups_loop srcs bk did fs = backups_loop srcs bk did fs0"
  using assms
proof (induction srcs arbitrary: did)
  case Nil
  then show ?case by simp
next
  case (Cons s rest)
  show ?case
  proof (cases "osp_exists fs s")
    case False
    with Cons.prems(1) have ex: "\<exists>t \<in> set rest. osp_exists fs t" by auto
    from Cons.prems(2) False have "\<not> osp_exists fs0 s" by simp
    with False Cons.IH [OF ex, of "did @ [None]"] Cons.prems(2,3) show ?thesis
      by (simp add: backups_loop_missing)
  next
    case True
    with Cons.prems(3) have m: "makedirs (osp_dirname (backup_path bk s)) fs = Inr fs0"
      and free0: "\<not> osp_exists fs0 (backup_path bk s)" by simp_all
    from makedirs_extends [OF m] obtain extra where e: "fs0 = fs @ extra"
      and d: "osp_isdir fs0 (osp_dirname (backup_path bk s))" by blast
    from free0 e have free: "\<not> osp_exists fs (backup_path bk s)"
      by (simp add: osp_exists_append)
    from True Cons.prems(2) have True0: "osp_exists fs0 s" by simp
    have m0: "makedirs (osp_dirname (backup_path bk s)) fs0 = Inr fs0"
      using d by (rule makedirs_isdir)
    have "backups_loop (s # rest) bk did fs =
        (case sh_copy2 s (backup_path bk s) fs0 of
           Inl e \<Rightarrow> (Inl e, fs0)
         | Inr fs2 \<Rightarrow> backups_loop rest bk (did @ [Some True]) fs2)"
      using True free m by (simp add: backups_loop.simps(2) backup_path_def)
    moreover have "backups_loop (s # rest) bk did fs0 =
        (case sh_copy2 s (backup_path bk s) fs0 of
           Inl e \<Rightarrow> (Inl e, fs0)
         | Inr fs2 \<Rightarrow> backups_loop rest bk (did @ [Some True]) fs2)"
      using True0 free0 m0 by (simp add: backups_loop.simps(2) backup_path_def)
    ultimately show ?thesis by simp
  qed
qed

text \<open>
  Claim C6, amended. Take any list of source paths and any backup folder path, and call
  \<open>fs0\<close> the file system as \<^verbatim>\<open>os.makedirs\<close> leaves it when the first copy asks for the folder
  of the backup paths (\<open>fs0\<close> is the file system itself when that folder is there). Suppose
  that every source that exists is a regular file, that \<^verbatim>\<open>os.makedirs\<close> succeeds for the
  folder of its backup path, and that its backup path
  \<^verbatim>\<open>osp.join(path_to_backup_folder, osp.basename(path))\<close> is not in \<open>fs0\<close>; that the sources
  that exist have pairwise different basenames; and that, when some source exists, no
  source that does not exist is in \<open>fs0\<close> or is the backup path of a source that exists.
  Then \<^verbatim>\<open>make_non_duplicate_backups\<close> returns a list of the length and in the order of the
  input, and calling it twice with the same arguments yields, per element, \<^verbatim>\<open>True\<close> on
  the first call and \<^verbatim>\<open>False\<close> on the second for every source that exists, and
  \<^verbatim>\<open>None\<close> on both calls for every source that does not exist.
\<close>

theorem backups_idempotent:
  assumes "\<forall>s \<in> set srcs. osp_exists fs s \<longrightarrow>
          (\<exists>c. map_of fs s = Some (File c))
          \<and> makedirs (osp_dirname (osp_join bk (osp_basename s))) fs = Inr fs0
          \<and> \<not> osp_exists fs0 (osp_join bk (osp_basename s))"
    and "distinct (map osp_basename (filter (osp_exists fs) srcs))"
    and "\<forall>s \<in> set srcs. \<not> osp_exists fs s \<longrightarrow>
          (\<forall>t \<in> set srcs. osp_exists fs t \<longrightarrow>
             \<not> osp_exists fs0 s \<and> s \<noteq> osp_join bk (osp_basename t))"
  shows "\<exists>fs1.
      make_non_duplicate_backups srcs bk fs =
        (Inr (map (\<lambda>s. if osp_exists fs s then Some True else None) srcs), fs1)
    \<and> make_non_duplicate_backups srcs bk fs1 =
        (Inr (map (\<lambda>s. if osp_exists fs s then Some False else None) srcs), fs1)"
proof (cases "\<exists>s \<in> set srcs. osp_exists fs s")
  case False
  then have "\<forall>s \<in> set srcs. osp_exists fs s \<longrightarrow> osp_exists fs (backup_path bk s)" by simp
  from backups_second_pass [OF this, of "[]"]
  have l: "backups_loop srcs bk [] fs =
      (Inr (map (\<lambda>s. if osp_exists fs s then Some False else None) srcs), fs)"
    by simp
  from False have "map (\<lambda>s. if osp_exists fs s then Some False else None) srcs
      = map (\<lambda>s. if osp_exists fs s then Some True else None) srcs"
    by (intro map_cong) simp_all
  with l show ?thesis
    by (auto simp: make_non_duplicate_backups_def)
next
  case True
  then obtain s0 where s0: "s0 \<in> set srcs" "osp_exists fs s0" by blast
  have bp: "\<And>t. osp_join bk (osp_basename t) = backup_path bk t"
    by (simp add: backup_path_def)
  note a1 = assms(1) [unfolded bp] and a3 = assms(3) [unfolded bp]
  from a1 s0 have "makedirs (osp_dirname (backup_path bk s0)) fs = Inr fs0" by blast
  from makedirs_extends [OF this] obtain extra where ext: "fs0 = fs @ extra" by blast
  have same0: "\<forall>s \<in> set srcs. osp_exists fs0 s = osp_exists fs s"
  proof
    fix s assume s: "s \<in> set srcs"
    show "osp_exists fs0 s = osp_exists fs s"
    proof (cases "osp_exists fs s")
      case True
      then show ?thesis by (simp add: ext osp_exists_append)
    next
      case False
      with a3 s s0 have "\<not> osp_exists fs0 s" by blast
      with False show ?thesis by simp
    qed
  qed
  then have f0: "filter (osp_exists fs0) srcs = filter (osp_exists fs) srcs"
    by (intro filter_cong) simp_all
  have r1: "\<forall>s \<in> set srcs. osp_exists fs0 s \<longrightarrow>
      (\<exists>c. map_of fs0 s = Some (File c))
      \<and> osp_isdir fs0 (osp_dirname (backup_path bk s))
      \<and> \<not> osp_exists fs0 (backup_path bk s)"
  proof (intro ballI impI)
    fix s assume s: "s \<in> set srcs" and "osp_exists fs0 s"
    with same0 have es: "osp_exists fs s" by simp
    with a1 s obtain c where c: "map_of fs s = Some (File c)"
      and m: "makedirs (osp_dirname (backup_path bk s)) fs = Inr fs0"
      and free: "\<not> osp_exists fs0 (backup_path bk s)" by blast
    from es c have "map_of fs0 s = Some (File c)"
      unfolding ext by (simp add: map_of_append_old)
    moreover from makedirs_extends [OF m] have "osp_isdir fs0 (osp_dirname (backup_path bk s))"
      by simp
    ultimately show "(\<exists>c. map_of fs0 s = Some (File c))
      \<and> osp_isdir fs0 (osp_dirname (backup_path bk s))
      \<and> \<not> osp_exists fs0 (backup_path bk s)"
      using free by blast
  qed
  have r3: "\<forall>s \<in> set srcs. \<not> osp_exists fs0 s \<longrightarrow>
      s \<notin> backup_path bk ` {t \<in> set srcs. osp_exists fs0 t}"
  proof (intro ballI impI)
    fix s assume s: "s \<in> set srcs" and "\<not> osp_exists fs0 s"
    with same0 have ns: "\<not> osp_exists fs s" by simp
    show "s \<notin> backup_path bk ` {t \<in> set srcs. osp_exists fs0 t}"
    proof
      assume "s \<in> backup_path bk ` {t \<in> set srcs. osp_exists fs0 t}"
      then obtain t where t: "t \<in> set srcs" "osp_exists fs0 t" "s = backup_path bk t" by blast
      with same0 have "osp_exists fs t" by simp
      with a3 s ns t(1) have "s \<noteq> backup_path bk t" by blast
      with t(3) show False by simp
    qed
  qed
  from r1 r3 assms(2) have ready: "backup_ready fs0 bk srcs"
    unfolding backup_ready_def f0 by blast
  from backups_first_pass [OF ready, of "[]"]
  obtain fs1 where
    l0: "backups_loop srcs bk [] fs0 =
        (Inr (map (\<lambda>s. if osp_exists fs0 s then Some True else None) srcs), fs1)"
    and e: "\<forall>p. osp_exists fs1 p =
            (osp_exists fs0 p \<or> p \<in> backup_path bk ` {t \<in> set srcs. osp_exists fs0 t})"
    by auto
  have p: "\<forall>s \<in> set srcs. osp_exists fs s \<longrightarrow>
          makedirs (osp_dirname (backup_path bk s)) fs = Inr fs0
          \<and> \<not> osp_exists fs0 (backup_path bk s)"
    using a1 by blast
  from same0 have "map (\<lambda>s. if osp_exists fs0 s then Some True else None) srcs
      = map (\<lambda>s. if osp_exists fs s then Some True else None) srcs"
    by (intro map_cong) simp_all
  with l0 backups_loop_prepared [OF same0 p True, of "[]"]
  have l: "backups_loop srcs bk [] fs =
        (Inr (map (\<lambda>s. if osp_exists fs s then Some True else None) srcs), fs1)"
    by simp
  have same: "\<forall>s \<in> set srcs. osp_exists fs1 s = osp_exists fs s"
  proof
    fix s assume s: "s \<in> set srcs"
    show "osp_exists fs1 s = osp_exists fs s"
    proof (cases "osp_exists fs0 s")
      case True
      with e same0 s show ?thesis by simp
    next
      case False
      with r3 s have "s \<notin> backup_path bk ` {t \<in> set srcs. osp_exists fs0 t}" by blast
      with e False same0 s show ?thesis by simp
    qed
  qed
  have "\<forall>s \<in> set srcs. osp_exists fs1 s \<longrightarrow> osp_exists fs1 (backup_path bk s)"
  proof (intro ballI impI)
    fix s assume s: "s \<in> set srcs" and "osp_exists fs1 s"
    with same same0 have "osp_exists fs0 s" by simp
    with s have "backup_path bk s \<in> backup_path bk ` {t \<in> set srcs. osp_exists fs0 t}" by blast
    with e show "osp_exists fs1 (backup_path bk s)" by simp
  qed
  from backups_second_pass [OF this, of "[]"]
  have "backups_loop srcs bk [] fs1 =
      (Inr (map (\<lambda>s. if osp_exists fs1 s then Some False else None) srcs), fs1)"
    by simp
  moreover from same have "map (\<lambda>s. if osp_exists fs1 s then Some False else None) srcs
      = map (\<lambda>s. if osp_exists fs s then Some False else None) srcs"
    by (intro map_cong) simp_all
  ultimately show ?thesis using l
    by (auto simp: make_non_duplicate_backups_def)
qed

text \<open>
  Two weight files to back up and one path that does not exist; the backup folder,
  written with a trailing slash, is not there and neither is its parent.
\<close>

definition backup_demo_fs :: fs where
  "backup_demo_fs = [(''/'', Dir), (''/w'', Dir),
     (''/w/best.pt'', File (Raw ''A'')), (''/w/last.pt'', File (Raw ''B''))]"

theorem backups_idempotent_witness:
  "make_non_duplicate_backups [''/w/best.pt'', ''/w/gone.pt'', ''/w/last.pt''] ''/bk/deep/''
       backup_demo_fs
     = (Inr [Some True, None, Some True],
        backup_demo_fs @ [(''/bk'', Dir), (''/bk/deep'', Dir),
          (''/bk/deep/best.pt'', File (Raw ''A'')), (''/bk/deep/last.pt'', File (Raw ''B''))])
   \<and> make_non_duplicate_backups [''/w/best.pt'', ''/w/gone.pt'', ''/w/last.pt''] ''/bk/deep/''
        (backup_demo_fs @ [(''/bk'', Dir), (''/bk/deep'', Dir),
          (''/bk/deep/best.pt'', File (Raw ''A'')), (''/bk/deep/last.pt'', File (Raw ''B''))])
     = (Inr [Some False, None, Some False],
        backup_demo_fs @ [(''/bk'', Dir), (''/bk/deep'', Dir),
          (''/bk/deep/best.pt'', File (Raw ''A'')), (''/bk/deep/last.pt'', File (Raw ''B''))])"
proof -
  let ?srcs = "[''/w/best.pt'', ''/w/gone.pt'', ''/w/last.pt'']"
  let ?fs0 = "backup_demo_fs @ [(''/bk'', Dir), (''/bk/deep'', Dir)]"
  have m: "makedirs ''/bk/deep'' backup_demo_fs = Inr ?fs0"
    by code_simp
  have j: "osp_join ''/bk/deep/'' (osp_basename ''/w/best.pt'') = ''/bk/deep/best.pt''"
    "osp_join ''/bk/deep/'' (osp_basename ''/w/last.pt'') = ''/bk/deep/last.pt''"
    "osp_join ''/bk/deep/'' (osp_basename ''/w/gone.pt'') = ''/bk/deep/gone.pt''"
    by (simp_all add: osp_join_def osp_basename_def)
  have d: "osp_dirname ''/bk/deep/best.pt'' = ''/bk/deep''"
    "osp_dirname ''/bk/deep/last.pt'' = ''/bk/deep''"
    by (simp_all add: osp_dirname_def rstrip_slash_def)
  have x: "osp_exists backup_demo_fs ''/w/best.pt''" "osp_exists backup_demo_fs ''/w/last.pt''"
    "\<not> osp_exists backup_demo_fs ''/w/gone.pt''"
    by (simp_all add: osp_exists_def backup_demo_fs_def)
  have a: "\<forall>s \<in> set ?srcs. osp_exists backup_demo_fs s \<longrightarrow>
          (\<exists>c. map_of backup_demo_fs s = Some (File c))
          \<and> makedirs (osp_dirname (osp_join ''/bk/deep/'' (osp_basename s))) backup_demo_fs
              = Inr ?fs0
          \<and> \<not> osp_exists ?fs0 (osp_join ''/bk/deep/'' (osp_basename s))"
    using x by (simp add: j d m) (simp add: osp_exists_def backup_demo_fs_def)
  have b: "distinct (map osp_basename (filter (osp_exists backup_demo_fs) ?srcs))"
    using x by (simp add: osp_basename_def)
  have c: "\<forall>s \<in> set ?srcs. \<not> osp_exists backup_demo_fs s \<longrightarrow>
          (\<forall>t \<in> set ?srcs. osp_exists backup_demo_fs t \<longrightarrow>
             \<not> osp_exists ?fs0 s \<and> s \<noteq> osp_join ''/bk/deep/'' (osp_basename t))"
    using x by (simp add: j) (simp add: osp_exists_def backup_demo_fs_def)
  have f: "make_non_duplicate_backups ?srcs ''/bk/deep/'' backup_demo_fs
     = (Inr [Some True, None, Some True],
        backup_demo_fs @ [(''/bk'', Dir), (''/bk/deep'', Dir),
          (''/bk/deep/best.pt'', File (Raw ''A'')), (''/bk/deep/last.pt'', File (Raw ''B''))])"
    by code_simp
  from backups_idempotent [OF a b c] f x show ?thesis
    by auto
qed

text \<open>
  Claim C6 as stated (for every list of sources, \<^verbatim>\<open>True\<close> on the first call for every
  source that exists) fails for two existing sources of the same basename: the first
  call already answers \<^verbatim>\<open>False\<close> for the second of them, whose name the first has taken
  in the backup folder.
\<close>

theorem backups_same_basename_counterexample:
  "osp_exists [(''/a'', Dir), (''/b'', Dir), (''/bk'', Dir),
       (''/a/x.pt'', File (Raw ''A'')), (''/b/x.pt'', File (Raw ''B''))] ''/a/x.pt''
   \<and> osp_exists [(''/a'', Dir), (''/b'', Dir), (''/bk'', Dir),
       (''/a/x.pt'', File (Raw ''A'')), (''/b/x.pt'', File (Raw ''B''))] ''/b/x.pt''
   \<and> fst (make_non_duplicate_backups [''/a/x.pt'', ''/b/x.pt''] ''/bk''
       [(''/a'', Dir), (''/b'', Dir), (''/bk'', Dir),
        (''/a/x.pt'', File (Raw ''A'')), (''/b/x.pt'', File (Raw ''B''))])
     = Inr [Some True, Some False]"
  by code_simp

section \<open>Properties of loading a checkpoint\<close>

lemma fs_read_error: "fs_read p d = Inl e \<Longrightarrow> e = FileNotFoundError \<or> e = IsADirectoryError"
  by (auto simp: fs_read_def split: option.splits node.splits)

lemma load_files_state: "snd (load_files files loaded st w) = (st, w)"
proof (induction files arbitrary: loaded)
  case Nil
  then show ?case by simp
next
  case (Cons a files)
  obtain obj_name filename where a: "a = (obj_name, filename)" by (cases a)
  show ?case
    unfolding a using Cons.IH
    by (simp split: option.splits sum.splits content.splits)
qed

lemma load_files_not_NotFound: "fst (load_files files loaded st w) \<noteq> Inl (NotFound n available)"
proof (induction files arbitrary: loaded)
  case Nil
  then show ?case by simp
next
  case (Cons a files)
  obtain obj_name filename where a: "a = (obj_name, filename)" by (cases a)
  show ?case
    unfolding a using Cons.IH
    by (auto split: option.splits sum.splits content.splits dest: fs_read_error)
qed

text \<open>
  Claim C7. For every state of the store and every name, \<^verbatim>\<open>load_checkpoint(name)\<close> fails
  with the not-found error if and only if the name is absent from the checkpoint index;
  and the call leaves the store (index, shared state, file tree) and the world (the files
  on disk) as they were, when it fails as when it returns.
\<close>

theorem load_checkpoint_not_found:
  "((\<exists>n available. fst (load_checkpoint name st w) = Inl (NotFound n available))
      = (name \<notin> fst ` set (checkpoint_db st)))
   \<and> snd (load_checkpoint name st w) = (st, w)"
proof (cases "map_of (checkpoint_db st) name")
  case None
  then have "name \<notin> fst ` set (checkpoint_db st)"
    by (simp add: map_of_eq_None_iff)
  with None show ?thesis
    by (simp add: load_checkpoint_def)
next
  case (Some info)
  then have "name \<in> fst ` set (checkpoint_db st)"
    by (metis map_of_eq_None_iff option.distinct(1))
  with Some show ?thesis
    using load_files_not_NotFound [of "ci_files info" "[(''checkpoint_info'', Info info)]" st w]
      load_files_state [of "ci_files info" "[(''checkpoint_info'', Info info)]" st w]
    by (simp add: load_checkpoint_def)
qed

text \<open>
  A store as \<^verbatim>\<open>initial_setup\<close> leaves it, in the phase \<^verbatim>\<open>training\<close>, and its directory.
\<close>

definition demo_store :: ml_storage where
  "demo_store = \<lparr>project_path = Some ''/proj'',
     main_config = [(''project_settings'', YDict [])],
     shared_storage = [(''project_name'', YStr ''demo''), (''latest_model_file'', YNone),
       (''latest_checkpoint'', YNone), (''total_checkpoints'', YInt 0)],
     file_tree = [(''root'', YDict [])],
     checkpoint_db = [],
     current_phase = TRAINING\<rparr>"

definition demo_world :: world where
  "demo_world = \<lparr>disk = [(''/proj'', Dir), (''/proj/old_yamls'', Dir), (''/proj/files'', Dir)],
     clock = 7, journal = [], hook_calls = []\<rparr>"

text \<open>Loading a name that was never saved.\<close>

theorem load_checkpoint_not_found_witness:
  "load_checkpoint ''c9'' demo_store demo_world = (Inl (NotFound ''c9'' []), demo_store, demo_world)"
proof -
  have "fst (load_checkpoint ''c9'' demo_store demo_world) = Inl (NotFound ''c9'' [])"
    by (simp add: load_checkpoint_def demo_store_def)
  with load_checkpoint_not_found [of "''c9''" demo_store demo_world] show ?thesis
    by (simp add: prod_eq_iff)
qed

lemma load_files_result:
  assumes "project_path st = Some p"
  shows "distinct (map fst files) \<Longrightarrow>
    \<forall>(r, f) \<in> set files. osp_exists (disk w) (pjoin (files_dir p) f) \<longrightarrow>
      (\<exists>obj. map_of (disk w) (pjoin (files_dir p) f) = Some (File (Pickled obj))) \<Longrightarrow>
    \<exists>loaded1. load_files files loaded st w = (Inr loaded1, st, w)
      \<and> (\<forall>r. map_of loaded1 r =
            (case map_of files r of
               None \<Rightarrow> map_of loaded r
             | Some f \<Rightarrow>
                 (case map_of (disk w) (pjoin (files_dir p) f) of
                    Some (File (Pickled obj)) \<Rightarrow> Some (Obj obj)
                  | _ \<Rightarrow> map_of loaded r)))"
proof (induction files arbitrary: loaded)
  case Nil
  then show ?case by simp
next
  case (Cons a files)
  obtain r0 f0 where a: "a = (r0, f0)" by (cases a)
  from Cons.prems a have d: "distinct (map fst files)" and r0: "map_of files r0 = None"
    by (simp_all add: map_of_eq_None_iff)
  from Cons.prems(2) have all: "\<forall>(r, f) \<in> set files.
      osp_exists (disk w) (pjoin (files_dir p) f) \<longrightarrow>
      (\<exists>obj. map_of (disk w) (pjoin (files_dir p) f) = Some (File (Pickled obj)))"
    by simp
  show ?case
  proof (cases "osp_exists (disk w) (pjoin (files_dir p) f0)")
    case False
    then have none: "map_of (disk w) (pjoin (files_dir p) f0) = None"
      by (simp add: osp_exists_def)
    from Cons.IH [OF d all, of loaded]
    obtain loaded1 where l: "load_files files loaded st w = (Inr loaded1, st, w)"
      and m: "\<forall>r. map_of loaded1 r =
            (case map_of files r of
               None \<Rightarrow> map_of loaded r
             | Some f \<Rightarrow>
                 (case map_of (disk w) (pjoin (files_dir p) f) of
                    Some (File (Pickled obj)) \<Rightarrow> Some (Obj obj)
                  | _ \<Rightarrow> map_of loaded r))"
      by blast
    from l False assms have "load_files (a # files) loaded st w = (Inr loaded1, st, w)"
      by (simp add: a)
    moreover from m r0 none have "\<forall>r. map_of loaded1 r =
            (case map_of (a # files) r of
               None \<Rightarrow> map_of loaded r
             | Some f \<Rightarrow>
                 (case map_of (disk w) (pjoin (files_dir p) f) of
                    Some (File (Pickled obj)) \<Rightarrow> Some (Obj obj)
                  | _ \<Rightarrow> map_of loaded r))"
      by (simp add: a)
    ultimately show ?thesis by blast
  next
    case True
    with Cons.prems(2) a obtain obj
      where obj: "map_of (disk w) (pjoin (files_dir p) f0) = Some (File (Pickled obj))"
      by auto
    from Cons.IH [OF d all, of "AList.update r0 (Obj obj) loaded"]
    obtain loaded1
      where l: "load_files files (AList.update r0 (Obj obj) loaded) st w = (Inr loaded1, st, w)"
      and m: "\<forall>r. map_of loaded1 r =
            (case map_of files r of
               None \<Rightarrow> map_of (AList.update r0 (Obj obj) loaded) r
             | Some f \<Rightarrow>
                 (case map_of (disk w) (pjoin (files_dir p) f) of
                    Some (File (Pickled obj)) \<Rightarrow> Some (Obj obj)
                  | _ \<Rightarrow> map_of (AList.update r0 (Obj obj) loaded) r))"
      by blast
    from l True obj assms have "load_files (a # files) loaded st w = (Inr loaded1, st, w)"
      by (simp add: a fs_read_def)
    moreover have "\<forall>r. map_of loaded1 r =
            (case map_of (a # files) r of
               None \<Rightarrow> map_of loaded r
             | Some f \<Rightarrow>
                 (case map_of (disk w) (pjoin (files_dir p) f) of
                    Some (File (Pickled obj)) \<Rightarrow> Some (Obj obj)
                  | _ \<Rightarrow> map_of loaded r))"
    proof
      fix r
      show "map_of loaded1 r =
            (case map_of (a # files) r of
               None \<Rightarrow> map_of loaded r
             | Some f \<Rightarrow>
                 (case map_of (disk w) (pjoin (files_dir p) f) of
                    Some (File (Pickled obj)) \<Rightarrow> Some (Obj obj)
                  | _ \<Rightarrow> map_of loaded r))"
      proof (cases "r = r0")
        case True
        with m r0 obj show ?thesis by (simp add: a update_conv')
      next
        case False
        then have u: "map_of (AList.update r0 (Obj obj) loaded) r = map_of loaded r"
          by (simp add: update_conv')
        from m have "map_of loaded1 r =
            (case map_of files r of
               None \<Rightarrow> map_of (AList.update r0 (Obj obj) loaded) r
             | Some f \<Rightarrow>
                 (case map_of (disk w) (pjoin (files_dir p) f) of
                    Some (File (Pickled obj)) \<Rightarrow> Some (Obj obj)
                  | _ \<Rightarrow> map_of (AList.update r0 (Obj obj) loaded) r))"
          by blast
        then show ?thesis
          unfolding u using False by (simp add: a)
      qed
    qed
    ultimately show ?thesis by blast
  qed
qed

text \<open>
  Claim C1, amended. For every checkpoint in the index whose files, where they are still
  on disk, are pickles: if the file of one role has been deleted while the file of
  another role survives, \<^verbatim>\<open>load_checkpoint\<close> on the checkpoint's name does not raise; it
  returns the surviving role's deserialized object, and the result has no entry at all
  for the deleted role (the role is skipped; no marker is stored for it). The deleted
  role is not called \<^verbatim>\<open>checkpoint_info\<close>, the key under which the result carries the
  metadata.
\<close>

theorem load_checkpoint_partial:
  assumes "map_of (checkpoint_db st) name = Some info"
    and "project_path st = Some p"
    and "distinct (map fst (ci_files info))"
    and "\<forall>(r, f) \<in> set (ci_files info). osp_exists (disk w) (pjoin (files_dir p) f) \<longrightarrow>
      (\<exists>obj. map_of (disk w) (pjoin (files_dir p) f) = Some (File (Pickled obj)))"
    and "(kept, kept_file) \<in> set (ci_files info)"
    and "map_of (disk w) (pjoin (files_dir p) kept_file) = Some (File (Pickled obj))"
    and "(gone, gone_file) \<in> set (ci_files info)"
    and "\<not> osp_exists (disk w) (pjoin (files_dir p) gone_file)"
    and "gone \<noteq> ''checkpoint_info''"
  shows "\<exists>loaded. load_checkpoint name st w = (Inr loaded, st, w)
    \<and> map_of loaded kept = Some (Obj obj)
    \<and> gone \<notin> fst ` set loaded"
proof -
  from load_files_result [OF assms(2,3,4), of "[(''checkpoint_info'', Info info)]"]
  obtain loaded where l: "load_files (ci_files info) [(''checkpoint_info'', Info info)] st w
      = (Inr loaded, st, w)"
    and m: "\<forall>r. map_of loaded r =
            (case map_of (ci_files info) r of
               None \<Rightarrow> map_of [(''checkpoint_info'', Info info)] r
             | Some f \<Rightarrow>
                 (case map_of (disk w) (pjoin (files_dir p) f) of
                    Some (File (Pickled obj)) \<Rightarrow> Some (Obj obj)
                  | _ \<Rightarrow> map_of [(''checkpoint_info'', Info info)] r))"
    by blast
  from assms(3,5) have "map_of (ci_files info) kept = Some kept_file" by simp
  with m assms(6) have k: "map_of loaded kept = Some (Obj obj)" by simp
  from assms(3,7) have "map_of (ci_files info) gone = Some gone_file" by simp
  moreover from assms(8) have "map_of (disk w) (pjoin (files_dir p) gone_file) = None"
    by (simp add: osp_exists_def)
  ultimately have "map_of loaded gone = None"
    using m assms(9) by simp
  then have "gone \<notin> fst ` set loaded" by (simp add: map_of_eq_None_iff)
  with l k assms(1) show ?thesis
    by (simp add: load_checkpoint_def)
qed

text \<open>
  The scenario of the claim: a checkpoint saved with the roles \<^verbatim>\<open>model\<close> and
  \<^verbatim>\<open>logs\<close>, then the file of \<^verbatim>\<open>logs\<close> deleted from the disk.
\<close>

definition demo_saved :: "error option \<times> ml_storage \<times> world" where
  "demo_saved = save_checkpoint ''c1''
     [(''model'', Some (Data ''w'')), (''logs'', Some (Finalizable ''l'' False))]
     demo_store demo_world"

definition demo_saved_store :: ml_storage where
  "demo_saved_store = fst (snd demo_saved)"

definition demo_logs_deleted :: world where
  "demo_logs_deleted =
     (snd (snd demo_saved))\<lparr>disk := AList.delete ''/proj/files/c1_logs.pkl''
        (disk (snd (snd demo_saved)))\<rparr>"


lemma demo_saved_db:
  "checkpoint_db demo_saved_store =
     [(''c1'', \<lparr>ci_name = ''c1'', ci_phase = ''training'', ci_saved_at = 7,
         ci_files = [(''model'', ''c1_model.pkl''), (''logs'', ''c1_logs.pkl'')]\<rparr>)]"
  by code_simp

lemma demo_saved_path: "project_path demo_saved_store = Some ''/proj''"
  by code_simp

lemma demo_logs_deleted_disk:
  "disk demo_logs_deleted =
     [(''/proj'', Dir), (''/proj/old_yamls'', Dir), (''/proj/files'', Dir),
      (''/proj/files/c1_model.pkl'', File (Pickled (Data ''w''))),
      (''/proj/main.yaml'', File (Yaml [(''project_settings'', YDict [])])),
      (''/proj/shared_storage.yaml'',
       File (Yaml [(''project_name'', YStr ''demo''), (''latest_model_file'', YStr ''c1_model.pkl''),
         (''latest_checkpoint'', YStr ''c1''), (''total_checkpoints'', YInt 1)])),
      (''/proj/file_tree.yaml'',
       File (Yaml [(''root'', YDict [(''files/'', YDict
         [(''c1_model.pkl'', YDict [(''added_at'', YInt 8), (''size_bytes'', YInt 1)]),
          (''c1_logs.pkl'', YDict [(''added_at'', YInt 9), (''size_bytes'', YInt 2)])])])])),
      (''/proj/tiny_db.json'',
       File (Json [(''c1'', \<lparr>ci_name = ''c1'', ci_phase = ''training'', ci_saved_at = 7,
         ci_files = [(''model'', ''c1_model.pkl''), (''logs'', ''c1_logs.pkl'')]\<rparr>)]))]"
  by code_simp

text \<open>The amended claim in that scenario.\<close>

theorem load_checkpoint_partial_witness:
  "\<exists>loaded. load_checkpoint ''c1'' demo_saved_store demo_logs_deleted
       = (Inr loaded, demo_saved_store, demo_logs_deleted)
     \<and> map_of loaded ''model'' = Some (Obj (Data ''w''))
     \<and> ''logs'' \<notin> fst ` set loaded"
proof -
  let ?info = "\<lparr>ci_name = ''c1'', ci_phase = ''training'', ci_saved_at = 7,
         ci_files = [(''model'', ''c1_model.pkl''), (''logs'', ''c1_logs.pkl'')]\<rparr>"
  have a: "map_of (checkpoint_db demo_saved_store) ''c1'' = Some ?info"
    by (simp add: demo_saved_db)
  have c: "distinct (map fst (ci_files ?info))" by simp
  have d: "\<forall>(r, f) \<in> set (ci_files ?info).
      osp_exists (disk demo_logs_deleted) (pjoin (files_dir ''/proj'') f) \<longrightarrow>
      (\<exists>obj. map_of (disk demo_logs_deleted) (pjoin (files_dir ''/proj'') f)
          = Some (File (Pickled obj)))"
    by (simp add: demo_logs_deleted_disk osp_exists_def pjoin_def files_dir_def)
  have e: "(''model'', ''c1_model.pkl'') \<in> set (ci_files ?info)" by simp
  have f: "map_of (disk demo_logs_deleted) (pjoin (files_dir ''/proj'') ''c1_model.pkl'')
      = Some (File (Pickled (Data ''w'')))"
    by (simp add: demo_logs_deleted_disk pjoin_def files_dir_def)
  have g: "(''logs'', ''c1_logs.pkl'') \<in> set (ci_files ?info)" by simp
  have h: "\<not> osp_exists (disk demo_logs_deleted) (pjoin (files_dir ''/proj'') ''c1_logs.pkl'')"
    by (simp add: demo_logs_deleted_disk osp_exists_def pjoin_def files_dir_def)
  have i: "''logs'' \<noteq> ''checkpoint_info''" by simp
  show ?thesis
    by (rule load_checkpoint_partial [OF a demo_saved_path c d e f g h i])
qed

text \<open>
  Claim C1 as stated (the result contains a per-role marker for the deleted role) fails
  in that scenario: the save succeeds, and the result of the load has the two keys
  \<^verbatim>\<open>checkpoint_info\<close> and \<^verbatim>\<open>model\<close> and nothing for \<^verbatim>\<open>logs\<close>.
\<close>

theorem load_checkpoint_no_marker_counterexample:
  "fst demo_saved = None
   \<and> fst (load_checkpoint ''c1'' demo_saved_store demo_logs_deleted) =
       Inr [(''checkpoint_info'',
             Info \<lparr>ci_name = ''c1'', ci_phase = ''training'', ci_saved_at = 7,
               ci_files = [(''model'', ''c1_model.pkl''), (''logs'', ''c1_logs.pkl'')]\<rparr>),
            (''model'', Obj (Data ''w''))]"
  by code_simp

section \<open>Properties of saving a checkpoint\<close>

lemma update_file_tree_frame:
  assumes "update_file_tree rel st w = (err, st1, w1)"
  shows "disk w1 = disk w \<and> journal w1 = journal w \<and> hook_calls w1 = hook_calls w
    \<and> project_path st1 = project_path st \<and> checkpoint_db st1 = checkpoint_db st
    \<and> shared_storage st1 = shared_storage st \<and> main_config st1 = main_config st
    \<and> current_phase st1 = current_phase st"
  using assms
  by (auto simp: update_file_tree_def now_def Let_def
      split: sum.splits option.splits if_splits)

text \<open>What one round of the loop does, whatever its outcome.\<close>

lemma save_object_effect:
  assumes "save_object name r obj files st w = (err, files1, st1, w1)"
  shows "(hook_calls w1 = hook_calls w \<or> hook_calls w1 = hook_calls w @ [r])
    \<and> (journal w1 = journal w \<or> (\<exists>p. journal w1 = journal w @ [Object_written r p]))
    \<and> (files1 = files \<or> (\<exists>f. files1 = AList.update r f files))
    \<and> project_path st1 = project_path st \<and> checkpoint_db st1 = checkpoint_db st
    \<and> shared_storage st1 = shared_storage st \<and> main_config st1 = main_config st
    \<and> current_phase st1 = current_phase st"
proof -
  define w0 where "w0 = (if has_prepare_for_save obj
             then w\<lparr>hook_calls := hook_calls w @ [r]\<rparr> else w)"
  have h0: "hook_calls w0 = hook_calls w \<or> hook_calls w0 = hook_calls w @ [r]"
    by (simp add: w0_def)
  have j0: "journal w0 = journal w"
    by (simp add: w0_def)
  show ?thesis
    using assms h0 j0 unfolding save_object_def w0_def [symmetric]
    by (auto simp: Let_def split: if_splits option.splits sum.splits prod.splits
        dest!: update_file_tree_frame)
qed

text \<open>The loop, as an induction principle over its rounds.\<close>

lemma save_objects_rounds [consumes 1, case_names finished skipped failed saved]:
  assumes run: "save_objects name objs files st w = (err, files1, st1, w1)"
    and finished: "\<And>files st w. P [] files st w None files st w"
    and skipped: "\<And>r rest files st w err files1 st1 w1.
        P rest files st w err files1 st1 w1 \<Longrightarrow>
        P ((r, None) # rest) files st w err files1 st1 w1"
    and failed: "\<And>r obj rest files st w e fa sa wa.
        save_object name r obj files st w = (Some e, fa, sa, wa) \<Longrightarrow>
        P ((r, Some obj) # rest) files st w (Some e) fa sa wa"
    and saved: "\<And>r obj rest files st w fa sa wa err files1 st1 w1.
        save_object name r obj files st w = (None, fa, sa, wa) \<Longrightarrow>
        save_objects name rest fa sa wa = (err, files1, st1, w1) \<Longrightarrow>
        P rest fa sa wa err files1 st1 w1 \<Longrightarrow>
        P ((r, Some obj) # rest) files st w err files1 st1 w1"
  shows "P objs files st w err files1 st1 w1"
  using run
proof (induction objs arbitrary: files st w)
  case Nil
  then show ?case using finished by simp
next
  case (Cons a rest)
  obtain r v where a: "a = (r, v)" by (cases a)
  show ?case
  proof (cases v)
    case None
    with Cons.prems a have "save_objects name rest files st w = (err, files1, st1, w1)" by simp
    from Cons.IH [OF this] show ?thesis unfolding a None by (rule skipped)
  next
    case (Some obj)
    obtain e fa sa wa where so: "save_object name r obj files st w = (e, fa, sa, wa)"
      by (cases "save_object name r obj files st w") auto
    show ?thesis
    proof (cases e)
      case (Some x)
      with so Cons.prems a \<open>v = Some obj\<close>
      have eq: "err = Some x" "files1 = fa" "st1 = sa" "w1 = wa" by auto
      from so have so': "save_object name r obj files st w = (Some x, fa, sa, wa)"
        unfolding Some .
      show ?thesis unfolding eq a \<open>v = Some obj\<close> by (rule failed [OF so'])
    next
      case None
      with so Cons.prems a \<open>v = Some obj\<close>
      have rest: "save_objects name rest fa sa wa = (err, files1, st1, w1)"
        by simp
      from so have so': "save_object name r obj files st w = (None, fa, sa, wa)"
        unfolding None .
      from Cons.IH [OF rest]
      show ?thesis unfolding a \<open>v = Some obj\<close> by (rule saved [OF so' rest])
    qed
  qed
qed

lemma save_objects_store:
  assumes "save_objects name objs files st w = (err, files1, st1, w1)"
  shows "project_path st1 = project_path st \<and> checkpoint_db st1 = checkpoint_db st
    \<and> shared_storage st1 = shared_storage st \<and> main_config st1 = main_config st
    \<and> current_phase st1 = current_phase st"
  using assms
proof (induction rule: save_objects_rounds)
  case (failed r obj rest files st w e fa sa wa)
  from save_object_effect [OF this] show ?case by simp
next
  case (saved r obj rest files st w fa sa wa err files1 st1 w1)
  from save_object_effect [OF saved(1)] saved(3) show ?case by simp
qed simp_all

text \<open>The roles whose object is not \<^verbatim>\<open>None\<close>.\<close>

fun given_roles :: "(string \<times> pyobj option) list \<Rightarrow> string list" where
  "given_roles [] = []"
| "given_roles ((r, None) # rest) = given_roles rest"
| "given_roles ((r, Some obj) # rest) = r # given_roles rest"

lemma given_roles_mem: "r \<in> set (given_roles objs) \<Longrightarrow> \<exists>obj. (r, Some obj) \<in> set objs"
  by (induction objs rule: given_roles.induct) auto

fun object_event :: "string list \<Rightarrow> write_event \<Rightarrow> bool" where
  "object_event roles (Object_written r p) = (r \<in> set roles)"
| "object_event roles (Document_written p) = False"

lemma object_event_mono:
  "set roles \<subseteq> set roles' \<Longrightarrow> object_event roles e \<Longrightarrow> object_event roles' e"
  by (cases e) auto

lemma save_objects_hooks:
  assumes "save_objects name objs files st w = (err, files1, st1, w1)"
  shows "\<exists>hs. hook_calls w1 = hook_calls w @ hs \<and> set hs \<subseteq> set (given_roles objs)"
  using assms
proof (induction rule: save_objects_rounds)
  case (finished files st w)
  show ?case by simp
next
  case (skipped r rest files st w err files1 st1 w1)
  then show ?case by simp
next
  case (failed r obj rest files st w e fa sa wa)
  from save_object_effect [OF this]
  have "hook_calls wa = hook_calls w @ [] \<or> hook_calls wa = hook_calls w @ [r]" by simp
  then show ?case
  proof
    assume "hook_calls wa = hook_calls w @ []"
    then show ?thesis by (intro exI [of _ "[]"]) simp
  next
    assume "hook_calls wa = hook_calls w @ [r]"
    then show ?thesis by (intro exI [of _ "[r]"]) simp
  qed
next
  case (saved r obj rest files st w fa sa wa err files1 st1 w1)
  from saved(3) obtain hs where hs: "hook_calls w1 = hook_calls wa @ hs"
    "set hs \<subseteq> set (given_roles rest)" by blast
  from save_object_effect [OF saved(1)]
  have "hook_calls wa = hook_calls w @ [] \<or> hook_calls wa = hook_calls w @ [r]" by simp
  then show ?case
  proof
    assume "hook_calls wa = hook_calls w @ []"
    with hs have "hook_calls w1 = hook_calls w @ hs" by simp
    moreover from hs(2) have "set hs \<subseteq> set (given_roles ((r, Some obj) # rest))" by auto
    ultimately show ?thesis by blast
  next
    assume "hook_calls wa = hook_calls w @ [r]"
    with hs have "hook_calls w1 = hook_calls w @ (r # hs)" by simp
    moreover from hs(2) have "set (r # hs) \<subseteq> set (given_roles ((r, Some obj) # rest))" by auto
    ultimately show ?thesis by blast
  qed
qed

lemma save_objects_journal:
  assumes "save_objects name objs files st w = (err, files1, st1, w1)"
  shows "\<exists>evs. journal w1 = journal w @ evs \<and> list_all (object_event (given_roles objs)) evs"
  using assms
proof (induction rule: save_objects_rounds)
  case (finished files st w)
  show ?case by simp
next
  case (skipped r rest files st w err files1 st1 w1)
  then show ?case by simp
next
  case (failed r obj rest files st w e fa sa wa)
  from save_object_effect [OF this]
  have "journal wa = journal w @ [] \<or> (\<exists>p. journal wa = journal w @ [Object_written r p])"
    by simp
  then show ?case
  proof (elim disjE exE)
    assume "journal wa = journal w @ []"
    then show ?thesis by (intro exI [of _ "[]"]) simp
  next
    fix p assume "journal wa = journal w @ [Object_written r p]"
    then show ?thesis by (intro exI [of _ "[Object_written r p]"]) simp
  qed
next
  case (saved r obj rest files st w fa sa wa err files1 st1 w1)
  from saved(3) obtain evs where evs: "journal w1 = journal wa @ evs"
    "list_all (object_event (given_roles rest)) evs" by blast
  have "set (given_roles rest) \<subseteq> set (given_roles ((r, Some obj) # rest))" by auto
  with evs(2) have ev': "list_all (object_event (given_roles ((r, Some obj) # rest))) evs"
    unfolding list_all_iff using object_event_mono by blast
  from save_object_effect [OF saved(1)]
  have "journal wa = journal w @ [] \<or> (\<exists>p. journal wa = journal w @ [Object_written r p])"
    by simp
  then show ?case
  proof (elim disjE exE)
    assume "journal wa = journal w @ []"
    with evs have "journal w1 = journal w @ evs" by simp
    with ev' show ?thesis by blast
  next
    fix p assume "journal wa = journal w @ [Object_written r p]"
    with evs have "journal w1 = journal w @ (Object_written r p # evs)" by simp
    moreover from ev'
    have "list_all (object_event (given_roles ((r, Some obj) # rest))) (Object_written r p # evs)"
      by simp
    ultimately show ?thesis by blast
  qed
qed

lemma keys_update: "fst ` set (AList.update k v xs) = insert k (fst ` set xs)"
  using AList.dom_update [of k v xs] by simp

lemma save_object_keys:
  assumes "save_object name r obj files st w = (err, files1, st1, w1)"
  shows "fst ` set files1 \<subseteq> insert r (fst ` set files)"
proof -
  from save_object_effect [OF assms]
  have "files1 = files \<or> (\<exists>f. files1 = AList.update r f files)" by simp
  then show ?thesis
  proof (elim disjE exE)
    assume "files1 = files"
    then show ?thesis by blast
  next
    fix f assume "files1 = AList.update r f files"
    then show ?thesis by (simp add: keys_update)
  qed
qed

lemma save_objects_files:
  assumes "save_objects name objs files st w = (err, files1, st1, w1)"
  shows "fst ` set files1 \<subseteq> fst ` set files \<union> set (given_roles objs)"
  using assms
proof (induction rule: save_objects_rounds)
  case (finished files st w)
  show ?case by simp
next
  case (skipped r rest files st w err files1 st1 w1)
  then show ?case by simp
next
  case (failed r obj rest files st w e fa sa wa)
  from save_object_keys [OF failed] show ?case by auto
next
  case (saved r obj rest files st w fa sa wa err files1 st1 w1)
  have "set (given_roles ((r, Some obj) # rest)) = insert r (set (given_roles rest))" by simp
  with save_object_keys [OF saved(1)] saved(3) show ?case by blast
qed

lemma write_document_effect:
  assumes "write_document doc base suffix False w = (err, w1)"
  shows "hook_calls w1 = hook_calls w \<and> clock w1 = clock w
    \<and> (if err = None then journal w1 = journal w @ [Document_written (base @ suffix)]
        else journal w1 = journal w)"
  using assms
  by (auto simp: write_document_def Let_def split: sum.splits)

lemma save_all_state_journal:
  assumes "save_all_state st w = (err, w1)"
  shows "hook_calls w1 = hook_calls w
    \<and> (\<exists>docs. journal w1 = journal w @ docs \<and> list_all (\<lambda>e. \<exists>p. e = Document_written p) docs)"
proof (cases "project_path st")
  case None
  with assms show ?thesis by (simp add: save_all_state_def)
next
  case (Some p)
  obtain e1 w_1 where a: "write_document (Yaml (main_config st)) (main_yaml_path p) [] False w = (e1, w_1)"
    by (cases "write_document (Yaml (main_config st)) (main_yaml_path p) [] False w") auto
  obtain e2 w_2 where b: "write_document (Yaml (shared_storage st)) (shared_storage_path p) [] False w_1 = (e2, w_2)"
    by (cases "write_document (Yaml (shared_storage st)) (shared_storage_path p) [] False w_1") auto
  obtain e3 w_3 where c: "write_document (Yaml (file_tree st)) (file_tree_path p) [] False w_2 = (e3, w_3)"
    by (cases "write_document (Yaml (file_tree st)) (file_tree_path p) [] False w_2") auto
  obtain e4 w_4 where d: "write_document (Json (checkpoint_db st)) (tiny_db_path p) [] False w_3 = (e4, w_4)"
    by (cases "write_document (Json (checkpoint_db st)) (tiny_db_path p) [] False w_3") auto
  note ea = write_document_effect [OF a] and eb = write_document_effect [OF b]
    and ec = write_document_effect [OF c] and ed = write_document_effect [OF d]
  from assms Some a b c d ea eb ec ed show ?thesis
    by (auto simp: save_all_state_def write_yaml_def write_json_def split: option.splits if_splits)
qed


text \<open>
  The two ways \<^verbatim>\<open>save_checkpoint\<close> can go: an exception in the loop over the objects, or
  the entry recorded in the index, after which the four documents are written unless the
  bookkeeping of the shared state raises.
\<close>

lemma save_checkpoint_cases:
  assumes "save_checkpoint name objs st w = (err, st1, w1)"
  shows "(\<exists>e files. save_objects name objs [] st (w\<lparr>clock := clock w + 1\<rparr>) = (Some e, files, st1, w1)
            \<and> err = Some e)
    \<or> (\<exists>files sa wa.
          save_objects name objs [] st (w\<lparr>clock := clock w + 1\<rparr>) = (None, files, sa, wa)
          \<and> checkpoint_db st1 =
              AList.update name
                \<lparr>ci_name = name, ci_phase = phase_value (current_phase st),
                 ci_saved_at = clock w, ci_files = files\<rparr> (checkpoint_db sa)
          \<and> project_path st1 = project_path sa
          \<and> ((err \<noteq> None \<and> w1 = wa) \<or> save_all_state st1 wa = (err, w1)))"
proof -
  obtain e files sa wa
    where so: "save_objects name objs [] st (w\<lparr>clock := clock w + 1\<rparr>) = (e, files, sa, wa)"
    by (cases "save_objects name objs [] st (w\<lparr>clock := clock w + 1\<rparr>)") auto
  show ?thesis
  proof (cases e)
    case (Some x)
    with assms so show ?thesis by (auto simp: save_checkpoint_def now_def)
  next
    case None
    with assms so show ?thesis
      by (auto simp: save_checkpoint_def now_def Let_def
          split: sum.splits option.splits prod.splits)
  qed
qed

lemma given_roles_None:
  assumes "(r, None) \<in> set objs" and "distinct (map fst objs)"
  shows "r \<notin> set (given_roles objs)"
proof
  assume "r \<in> set (given_roles objs)"
  then obtain obj where "(r, Some obj) \<in> set objs" by (auto dest: given_roles_mem)
  with assms show False by (meson eq_key_imp_eq_value option.distinct(1))
qed

lemma object_event_role: "object_event roles (Object_written r p) \<Longrightarrow> r \<in> set roles"
  by simp

text \<open>
  Claim C10. For every call of \<^verbatim>\<open>save_checkpoint\<close> and every role supplied with the value
  \<^verbatim>\<open>None\<close>: the call invokes no \<^verbatim>\<open>prepare_for_save\<close> for that role, writes no file for it,
  and records no file name for it. Whatever the outcome of the call, the index is either
  as it was or has the new entry under the checkpoint's name, whose mapping from roles
  to file names does not have the role; when the call returns, the index has that entry.
\<close>

theorem save_checkpoint_skips_None:
  assumes "(r, None) \<in> set objects_to_save"
    and "distinct (map fst objects_to_save)"
    and "save_checkpoint name objects_to_save st w = (err, st1, w1)"
  shows "(\<exists>hs. hook_calls w1 = hook_calls w @ hs \<and> r \<notin> set hs)
    \<and> (\<exists>evs. journal w1 = journal w @ evs \<and> (\<forall>p. Object_written r p \<notin> set evs))
    \<and> (checkpoint_db st1 = checkpoint_db st
        \<or> (\<exists>info. checkpoint_db st1 = AList.update name info (checkpoint_db st)
              \<and> r \<notin> fst ` set (ci_files info)))
    \<and> (err = None \<longrightarrow>
          (\<exists>info. map_of (checkpoint_db st1) name = Some info \<and> r \<notin> fst ` set (ci_files info)))"
proof -
  let ?w0 = "w\<lparr>clock := clock w + 1\<rparr>"
  from assms(1,2) have nr: "r \<notin> set (given_roles objects_to_save)"
    by (rule given_roles_None)
  have obj_ev: "\<And>evs. list_all (object_event (given_roles objects_to_save)) evs
      \<Longrightarrow> \<forall>p. Object_written r p \<notin> set evs"
  proof (intro allI notI)
    fix evs p
    assume "list_all (object_event (given_roles objects_to_save)) evs"
      and "Object_written r p \<in> set evs"
    then have "object_event (given_roles objects_to_save) (Object_written r p)"
      unfolding list_all_iff by blast
    with nr show False by simp
  qed
  from save_checkpoint_cases [OF assms(3)] show ?thesis
  proof
    assume "\<exists>e files. save_objects name objects_to_save [] st ?w0 = (Some e, files, st1, w1)
            \<and> err = Some e"
    then obtain e files
      where so: "save_objects name objects_to_save [] st ?w0 = (Some e, files, st1, w1)"
      and e: "err = Some e" by blast
    from save_objects_hooks [OF so] nr
    have h: "\<exists>hs. hook_calls w1 = hook_calls w @ hs \<and> r \<notin> set hs" by auto
    from save_objects_journal [OF so] obtain evs where "journal w1 = journal w @ evs"
      "list_all (object_event (given_roles objects_to_save)) evs" by auto
    with obj_ev have j: "\<exists>evs. journal w1 = journal w @ evs \<and> (\<forall>p. Object_written r p \<notin> set evs)"
      by blast
    from save_objects_store [OF so] have "checkpoint_db st1 = checkpoint_db st" by simp
    with h j e show ?thesis by simp
  next
    assume "\<exists>files sa wa.
          save_objects name objects_to_save [] st ?w0 = (None, files, sa, wa)
          \<and> checkpoint_db st1 =
              AList.update name
                \<lparr>ci_name = name, ci_phase = phase_value (current_phase st),
                 ci_saved_at = clock w, ci_files = files\<rparr> (checkpoint_db sa)
          \<and> project_path st1 = project_path sa
          \<and> ((err \<noteq> None \<and> w1 = wa) \<or> save_all_state st1 wa = (err, w1))"
    then obtain files sa wa
      where so: "save_objects name objects_to_save [] st ?w0 = (None, files, sa, wa)"
      and db: "checkpoint_db st1 =
              AList.update name
                \<lparr>ci_name = name, ci_phase = phase_value (current_phase st),
                 ci_saved_at = clock w, ci_files = files\<rparr> (checkpoint_db sa)"
      and rest: "(err \<noteq> None \<and> w1 = wa) \<or> save_all_state st1 wa = (err, w1)"
      by blast
    let ?info = "\<lparr>ci_name = name, ci_phase = phase_value (current_phase st),
                 ci_saved_at = clock w, ci_files = files\<rparr>"
    from save_objects_hooks [OF so] nr
    obtain hs where hs: "hook_calls wa = hook_calls w @ hs" "r \<notin> set hs" by auto
    from save_objects_journal [OF so] obtain evs where evs: "journal wa = journal w @ evs"
      "list_all (object_event (given_roles objects_to_save)) evs" by auto
    from save_objects_files [OF so] nr have f: "r \<notin> fst ` set files" by auto
    from save_objects_store [OF so] have s: "checkpoint_db sa = checkpoint_db st" by simp
    from db s have db': "checkpoint_db st1 = AList.update name ?info (checkpoint_db st)" by simp
    from f have fi: "r \<notin> fst ` set (ci_files ?info)" by simp
    from db' fi have d: "\<exists>info. checkpoint_db st1 = AList.update name info (checkpoint_db st)
              \<and> r \<notin> fst ` set (ci_files info)" by blast
    from db' have "map_of (checkpoint_db st1) name = Some ?info" by (simp add: update_conv')
    with fi have m: "\<exists>info. map_of (checkpoint_db st1) name = Some info
        \<and> r \<notin> fst ` set (ci_files info)" by blast
    from rest have "(\<exists>hs. hook_calls w1 = hook_calls w @ hs \<and> r \<notin> set hs)
      \<and> (\<exists>evs. journal w1 = journal w @ evs \<and> (\<forall>p. Object_written r p \<notin> set evs))"
    proof
      assume "err \<noteq> None \<and> w1 = wa"
      with hs evs obj_ev show ?thesis by blast
    next
      assume "save_all_state st1 wa = (err, w1)"
      from save_all_state_journal [OF this] obtain docs where
        h1: "hook_calls w1 = hook_calls wa" and j1: "journal w1 = journal wa @ docs"
        and dd: "list_all (\<lambda>e. \<exists>p. e = Document_written p) docs" by blast
      from dd have nd: "\<forall>p. Object_written r p \<notin> set docs" by (auto simp: list_all_iff)
      from j1 evs have "journal w1 = journal w @ (evs @ docs)" by simp
      moreover from nd obj_ev [OF evs(2)] have "\<forall>p. Object_written r p \<notin> set (evs @ docs)"
        by simp
      ultimately have "\<exists>evs. journal w1 = journal w @ evs \<and> (\<forall>p. Object_written r p \<notin> set evs)"
        by blast
      with h1 hs show ?thesis by auto
    qed
    with d m show ?thesis by blast
  qed
qed

text \<open>A checkpoint saved with a model and with \<^verbatim>\<open>logs=None\<close>.\<close>

theorem save_checkpoint_skips_None_witness:
  "\<exists>st1 w1.
     save_checkpoint ''c2'' [(''model'', Some (Finalizable ''w'' False)), (''logs'', None)]
       demo_store demo_world = (None, st1, w1)
     \<and> hook_calls w1 = [''model'']
     \<and> (\<forall>p. Object_written ''logs'' p \<notin> set (journal w1))
     \<and> (\<exists>info. map_of (checkpoint_db st1) ''c2'' = Some info
           \<and> ''logs'' \<notin> fst ` set (ci_files info))"
proof -
  let ?objs = "[(''model'', Some (Finalizable ''w'' False)), (''logs'', None)]"
  obtain err st1 w1 where s: "save_checkpoint ''c2'' ?objs demo_store demo_world = (err, st1, w1)"
    by (cases "save_checkpoint ''c2'' ?objs demo_store demo_world") auto
  have "fst (save_checkpoint ''c2'' ?objs demo_store demo_world) = None" by code_simp
  with s have e: "err = None" by simp
  have "hook_calls (snd (snd (save_checkpoint ''c2'' ?objs demo_store demo_world))) = [''model'']"
    by code_simp
  with s have h: "hook_calls w1 = [''model'']" by simp
  have a: "(''logs'', None) \<in> set ?objs" by simp
  have b: "distinct (map fst ?objs)" by simp
  have j0: "journal demo_world = []" by (simp add: demo_world_def)
  from save_checkpoint_skips_None [OF a b s] e h j0 s show ?thesis by auto
qed

text \<open>
  A role named \<^verbatim>\<open>model\<close> whose value is \<^verbatim>\<open>None\<close> is skipped by the loop like any other,
  and then looked up in the mapping of the files: the call raises \<^verbatim>\<open>KeyError\<close>, with the
  entry in the index and nothing written.
\<close>

lemma save_checkpoint_model_None:
  "fst (save_checkpoint ''c3'' [(''model'', None)] demo_store demo_world) = Some (KeyError ''model'')
   \<and> map fst (checkpoint_db (fst (snd (save_checkpoint ''c3'' [(''model'', None)] demo_store demo_world))))
       = [''c3'']
   \<and> journal (snd (snd (save_checkpoint ''c3'' [(''model'', None)] demo_store demo_world))) = []"
  by code_simp

text \<open>
  What a document writer does to the disk: the entries that were there stay as they
  are, but for the document; and the document is there when the writer returns.
\<close>

lemma fs_write_result:
  "fs_write p c d = Inr d1 \<Longrightarrow> d1 = AList.update p (File c) d"
  by (auto simp: fs_write_def Let_def split: if_splits)

lemma write_document_disk:
  assumes "write_document doc base suffix False w = (err, w1)"
  shows "(\<forall>q. osp_exists (disk w) q \<longrightarrow> q \<noteq> base @ suffix \<longrightarrow>
            map_of (disk w1) q = map_of (disk w) q)
    \<and> (\<forall>q. osp_exists (disk w) q \<longrightarrow> osp_exists (disk w1) q)
    \<and> (err = None \<longrightarrow> map_of (disk w1) (base @ suffix) = Some (File doc))"
proof (cases "makedirs (path_parent (base @ suffix)) (disk w)")
  case (Inl e)
  with assms show ?thesis by (auto simp: write_document_def)
next
  case (Inr d1)
  from makedirs_extends [OF Inr] obtain extra where e: "d1 = disk w @ extra" by blast
  have keep: "\<And>q. osp_exists (disk w) q \<Longrightarrow> map_of d1 q = map_of (disk w) q"
    unfolding e by (rule map_of_append_old)
  show ?thesis
  proof (cases "fs_write (base @ suffix) doc d1")
    case (Inl e')
    with Inr assms have "disk w1 = d1" by (auto simp: write_document_def)
    with keep Inl Inr assms show ?thesis
      by (auto simp: write_document_def osp_exists_def)
  next
    case (Inr d2)
    from fs_write_result [OF Inr] have d2: "d2 = AList.update (base @ suffix) (File doc) d1" .
    from Inr \<open>makedirs (path_parent (base @ suffix)) (disk w) = Inr d1\<close> assms
    have w1: "disk w1 = d2" "err = None" by (auto simp: write_document_def)
    have a: "\<forall>q. osp_exists (disk w) q \<longrightarrow> q \<noteq> base @ suffix \<longrightarrow>
            map_of (disk w1) q = map_of (disk w) q"
      unfolding w1 d2 using keep by (simp add: map_of_update_other)
    have b: "\<forall>q. osp_exists (disk w) q \<longrightarrow> osp_exists (disk w1) q"
    proof (intro allI impI)
      fix q assume q: "osp_exists (disk w) q"
      with keep have "osp_exists d1 q" by (simp add: osp_exists_def)
      then show "osp_exists (disk w1) q" unfolding w1 d2 by (simp add: osp_exists_update)
    qed
    have c: "map_of (disk w1) (base @ suffix) = Some (File doc)"
      unfolding w1 d2 by (rule map_of_update_same)
    from a b c show ?thesis by blast
  qed
qed

lemma save_all_state_steps:
  assumes "save_all_state st w = (err, w4)" and "project_path st = Some p"
  shows "\<exists>e1 e2 e3 e4 w1 w2 w3 w4'.
      write_document (Yaml (main_config st)) (main_yaml_path p) [] False w = (e1, w1)
    \<and> write_document (Yaml (shared_storage st)) (shared_storage_path p) [] False w1 = (e2, w2)
    \<and> write_document (Yaml (file_tree st)) (file_tree_path p) [] False w2 = (e3, w3)
    \<and> write_document (Json (checkpoint_db st)) (tiny_db_path p) [] False w3 = (e4, w4')
    \<and> ((e1 \<noteq> None \<and> err = e1 \<and> w4 = w1)
        \<or> (e1 = None \<and> e2 \<noteq> None \<and> err = e2 \<and> w4 = w2)
        \<or> (e1 = None \<and> e2 = None \<and> e3 \<noteq> None \<and> err = e3 \<and> w4 = w3)
        \<or> (e1 = None \<and> e2 = None \<and> e3 = None \<and> err = e4 \<and> w4 = w4'))"
proof -
  obtain e1 w_1 where a: "write_document (Yaml (main_config st)) (main_yaml_path p) [] False w = (e1, w_1)"
    by (cases "write_document (Yaml (main_config st)) (main_yaml_path p) [] False w") auto
  obtain e2 w_2 where b: "write_document (Yaml (shared_storage st)) (shared_storage_path p) [] False w_1 = (e2, w_2)"
    by (cases "write_document (Yaml (shared_storage st)) (shared_storage_path p) [] False w_1") auto
  obtain e3 w_3 where c: "write_document (Yaml (file_tree st)) (file_tree_path p) [] False w_2 = (e3, w_3)"
    by (cases "write_document (Yaml (file_tree st)) (file_tree_path p) [] False w_2") auto
  obtain e4 w_4 where d: "write_document (Json (checkpoint_db st)) (tiny_db_path p) [] False w_3 = (e4, w_4)"
    by (cases "write_document (Json (checkpoint_db st)) (tiny_db_path p) [] False w_3") auto
  from assms a b c d
  have "(e1 \<noteq> None \<and> err = e1 \<and> w4 = w_1)
        \<or> (e1 = None \<and> e2 \<noteq> None \<and> err = e2 \<and> w4 = w_2)
        \<or> (e1 = None \<and> e2 = None \<and> e3 \<noteq> None \<and> err = e3 \<and> w4 = w_3)
        \<or> (e1 = None \<and> e2 = None \<and> e3 = None \<and> err = e4 \<and> w4 = w_4)"
    by (auto simp: save_all_state_def write_yaml_def write_json_def split: option.splits)
  with a b c d show ?thesis by blast
qed


text \<open>The paths of the four documents of a store.\<close>

definition document_paths :: "ml_storage \<Rightarrow> path set" where
  "document_paths st =
     (case project_path st of
        None \<Rightarrow> {}
      | Some p \<Rightarrow> {main_yaml_path p, shared_storage_path p, file_tree_path p, tiny_db_path p})"

text \<open>
  \<open>kept X d d'\<close>: every path of the disk \<open>d\<close> is a path of \<open>d'\<close>, with the same content
  unless it is in \<open>X\<close>.
\<close>

definition kept :: "path set \<Rightarrow> fs \<Rightarrow> fs \<Rightarrow> bool" where
  "kept X d d' =
     (\<forall>q. osp_exists d q \<longrightarrow> osp_exists d' q \<and> (q \<notin> X \<longrightarrow> map_of d' q = map_of d q))"

lemma kept_refl: "kept X d d"
  by (simp add: kept_def)

lemma kept_trans: "kept X d d' \<Longrightarrow> kept X d' d'' \<Longrightarrow> kept X d d''"
  unfolding kept_def by metis

lemma kept_mono: "X \<subseteq> Y \<Longrightarrow> kept X d d' \<Longrightarrow> kept Y d d'"
  unfolding kept_def by blast

lemma write_document_kept:
  assumes "write_document doc base suffix False w = (err, w1)"
  shows "kept {base @ suffix} (disk w) (disk w1)"
  using write_document_disk [OF assms] unfolding kept_def by blast

lemma save_all_state_kept:
  assumes "save_all_state st w = (err, w4)"
  shows "kept (document_paths st) (disk w) (disk w4)"
proof (cases "project_path st")
  case None
  with assms show ?thesis by (simp add: save_all_state_def kept_refl)
next
  case (Some p)
  from save_all_state_steps [OF assms Some] obtain e1 e2 e3 e4 w1 w2 w3 w4' where
    a: "write_document (Yaml (main_config st)) (main_yaml_path p) [] False w = (e1, w1)"
    and b: "write_document (Yaml (shared_storage st)) (shared_storage_path p) [] False w1 = (e2, w2)"
    and c: "write_document (Yaml (file_tree st)) (file_tree_path p) [] False w2 = (e3, w3)"
    and d: "write_document (Json (checkpoint_db st)) (tiny_db_path p) [] False w3 = (e4, w4')"
    and ch: "w4 = w1 \<or> w4 = w2 \<or> w4 = w3 \<or> w4 = w4'"
    by blast
  have dp: "document_paths st =
      {main_yaml_path p, shared_storage_path p, file_tree_path p, tiny_db_path p}"
    using Some by (simp add: document_paths_def)
  have 1: "kept (document_paths st) (disk w) (disk w1)"
    using write_document_kept [OF a] by (rule kept_mono [rotated]) (simp add: dp)
  have "kept (document_paths st) (disk w1) (disk w2)"
    using write_document_kept [OF b] by (rule kept_mono [rotated]) (simp add: dp)
  with 1 have 2: "kept (document_paths st) (disk w) (disk w2)" by (rule kept_trans)
  have "kept (document_paths st) (disk w2) (disk w3)"
    using write_document_kept [OF c] by (rule kept_mono [rotated]) (simp add: dp)
  with 2 have 3: "kept (document_paths st) (disk w) (disk w3)" by (rule kept_trans)
  have "kept (document_paths st) (disk w3) (disk w4')"
    using write_document_kept [OF d] by (rule kept_mono [rotated]) (simp add: dp)
  with 3 have 4: "kept (document_paths st) (disk w) (disk w4')" by (rule kept_trans)
  from ch show ?thesis
  proof (elim disjE)
    assume "w4 = w1" with 1 show ?thesis by simp
  next
    assume "w4 = w2" with 2 show ?thesis by simp
  next
    assume "w4 = w3" with 3 show ?thesis by simp
  next
    assume "w4 = w4'" with 4 show ?thesis by simp
  qed
qed






end
